theory Spec2Isabelle
  imports Main "HOL-Library.AList"
begin

section \<open>Results of running Python code\<close>

text \<open>
  A Python call either raises, returns, or never returns.  A result is
  \<open>None\<close> when the call does not return, \<open>Some (Inl e)\<close> when it
  raises \<open>e\<close> and \<open>Some (Inr x)\<close> when it returns \<open>x\<close>.  Mutable objects
  are passed in and handed back explicitly.
\<close>

datatype error = AssertionError | AttributeError | IndexError | ValueError | OracleError

type_synonym 'a res = "(error + 'a) option"

abbreviation ok :: "'a \<Rightarrow> 'a res" where
  "ok x \<equiv> Some (Inr x)"

abbreviation raise :: "error \<Rightarrow> 'a res" where
  "raise e \<equiv> Some (Inl e)"

definition bindR :: "'a res \<Rightarrow> ('a \<Rightarrow> 'b res) \<Rightarrow> 'b res" where
  "bindR m f = (case m of None \<Rightarrow> None | Some (Inl e) \<Rightarrow> Some (Inl e) | Some (Inr x) \<Rightarrow> f x)"

section \<open>The configuration model (dynamicComputationGraph.py)\<close>

type_synonym state = string
type_synonym symbol = string

text \<open>
  A \<open>TransitionCase\<close> is identified by \<open>(index, tier, state, symbol)\<close>;
  its \<open>__eq__\<close> compares exactly these four attributes.
\<close>

record tcase =
  t_index :: int
  t_tier :: nat
  t_state :: state
  t_symbol :: symbol

text \<open>
  A \<open>vertex\<close> object holds its transition case \<open>T\<close> and its predecessor
  transition case \<open>pred\<close>; \<open>__eq__\<close> and \<open>__hash__\<close> go through \<open>key\<close>,
  which is \<open>(T.index, T.tier, T.state, T.symbol)\<close> on tier 0 and that tuple
  extended by \<open>(P.state, P.symbol)\<close> above.  The only constructor calls are in
  \<open>TransitionCase.__init__\<close> (tier 0, \<open>P = None\<close>) and in
  \<open>TransitionCase.vertex\<close>, behind the assertions \<open>P.index == self.index\<close> and
  \<open>P.tier == self.tier - 1\<close>, so the predecessor is determined by the key and a
  vertex value is its key: \<open>v_pred\<close> is \<open>None\<close> for \<open>pred = None\<close> and
  \<open>Some (P.state, P.symbol)\<close> otherwise.
\<close>

record vertex =
  v_index :: int
  v_tier :: nat
  v_state :: state
  v_symbol :: symbol
  v_pred :: "(state \<times> symbol) option"

type_synonym edge = "vertex \<times> vertex"

text \<open>
  The module globals set by \<open>initialize\<close>: the oracle \<open>TransitionCase.delta\<close>
  (\<open>None\<close> where the oracle itself raises) and \<open>SymbolDict.symbols\<close>.  Python
  does not fix the order in which a \<open>set\<close> is iterated; \<open>vorder\<close> and
  \<open>eorder\<close> give the order in which a set of vertices or of edges is run through.
\<close>

record env =
  delta :: "state \<Rightarrow> symbol \<Rightarrow> (state \<times> symbol \<times> int) option"
  symbols :: "symbol set"
  vorder :: "vertex set \<Rightarrow> vertex list"
  eorder :: "edge set \<Rightarrow> edge list"

definition transitionCase :: "vertex \<Rightarrow> tcase" where
  "transitionCase v = \<lparr>t_index = v_index v, t_tier = v_tier v, t_state = v_state v, t_symbol = v_symbol v\<rparr>"

text \<open>\<open>v.pred\<close> as a transition case, by the two assertions of \<open>TransitionCase.vertex\<close>.\<close>

definition pred_case :: "vertex \<Rightarrow> tcase option" where
  "pred_case v = (case v_pred v of None \<Rightarrow> None
     | Some (q, s) \<Rightarrow> Some \<lparr>t_index = v_index v, t_tier = v_tier v - 1, t_state = q, t_symbol = s\<rparr>)"

definition last_state :: "vertex \<Rightarrow> state res" where
  "last_state v = (case v_pred v of None \<Rightarrow> raise AttributeError | Some (q, s) \<Rightarrow> ok q)"

definition last_symbol :: "vertex \<Rightarrow> symbol res" where
  "last_symbol v = (case v_pred v of None \<Rightarrow> raise AttributeError | Some (q, s) \<Rightarrow> ok s)"

text \<open>\<open>T.output\<close> was computed from the oracle when \<open>T\<close> was constructed.\<close>

definition v_output :: "env \<Rightarrow> vertex \<Rightarrow> symbol res" where
  "v_output M v = (case delta M (v_state v) (v_symbol v) of None \<Rightarrow> raise OracleError
     | Some (q', s', d) \<Rightarrow> ok s')"

definition e_index :: "edge \<Rightarrow> int" where
  "e_index e = min (v_index (fst e)) (v_index (snd e))"

subsection \<open>CellArray\<close>

record 'a cellarray =
  ca_base :: int
  ca_items :: "'a list"

definition CellArray :: "'a cellarray" where
  "CellArray = \<lparr>ca_base = 0, ca_items = []\<rparr>"

definition isDefined :: "'a cellarray \<Rightarrow> int \<Rightarrow> bool" where
  "isDefined A i \<longleftrightarrow> ca_base A \<le> i \<and> i < int (length (ca_items A)) + ca_base A"

text \<open>
  \<open>CellArray.__getitem__\<close> without the assertion on kind 1: an index in range
  is read; otherwise cells are appended for \<open>range(m, index+1)\<close> and inserted at
  the front for \<open>range(base-1, index-1, -1)\<close>, and the last one made is returned.
\<close>

definition ca_getitem :: "(int \<Rightarrow> 'a) \<Rightarrow> 'a cellarray \<Rightarrow> int \<Rightarrow> 'a \<times> 'a cellarray" where
  "ca_getitem newItem A i =
     (if isDefined A i then (ca_items A ! nat (i - ca_base A), A)
      else let m = int (length (ca_items A)) + ca_base A;
               A1 = A\<lparr>ca_items := ca_items A @ map newItem [m..i]\<rparr>;
               A2 = A1\<lparr>ca_items := map newItem [i..ca_base A - 1] @ ca_items A1,
                       ca_base := min (ca_base A) i\<rparr>
           in (newItem i, A2))"

text \<open>In-place change of the object stored in a defined cell.\<close>

definition ca_store :: "'a cellarray \<Rightarrow> int \<Rightarrow> 'a \<Rightarrow> 'a cellarray" where
  "ca_store A i x = A\<lparr>ca_items := (ca_items A)[nat (i - ca_base A) := x]\<rparr>"

text \<open>What a read of cell \<open>i\<close> would see, without materialising it.\<close>

definition ca_view :: "(int \<Rightarrow> 'a) \<Rightarrow> 'a cellarray \<Rightarrow> int \<Rightarrow> 'a" where
  "ca_view newItem A i = (if isDefined A i then ca_items A ! nat (i - ca_base A) else newItem i)"

subsection \<open>EdgeListOf and EdgeSlice\<close>

record edgelistof =
  left_incoming :: "vertex list"
  left_outgoing :: "vertex list"
  right_incoming :: "vertex list"
  right_outgoing :: "vertex list"

definition EdgeListOf :: edgelistof where
  "EdgeListOf = \<lparr>left_incoming = [], left_outgoing = [], right_incoming = [], right_outgoing = []\<rparr>"

text \<open>
  \<open>EdgeSlice.edges\<close> is a dict from \<open>vertex.key\<close> to the \<open>EdgeListOf\<close> of that
  vertex, kept here in insertion order.
\<close>

record edgeslice =
  es_index :: int
  edges :: "(vertex \<times> edgelistof) list"
  es_edgeCount :: int

definition EdgeSlice :: "int \<Rightarrow> edgeslice" where
  "EdgeSlice i = \<lparr>es_index = i, edges = [], es_edgeCount = 0\<rparr>"

definition es_getitem :: "edgeslice \<Rightarrow> vertex \<Rightarrow> (edgelistof \<times> edgeslice) res" where
  "es_getitem S v =
     (if es_index S \<noteq> v_index v \<and> es_index S \<noteq> v_index v - 1 then raise AssertionError
      else case map_of (edges S) v of
             None \<Rightarrow> ok (EdgeListOf, S\<lparr>edges := edges S @ [(v, EdgeListOf)]\<rparr>)
           | Some l \<Rightarrow> ok (l, S))"

subsection \<open>The vertex axis: TierArray, StateDict, SymbolDict, TransitionCase\<close>

type_synonym symboldict = "(symbol \<times> vertex set) list"
type_synonym statedict = "(state \<times> symboldict) list"
type_synonym tierarray = "statedict list"
type_synonym vaxis = "tierarray cellarray"

text \<open>\<open>TransitionCase.__init__\<close>: the oracle is called; a floor case owns its one vertex.\<close>

definition TransitionCase :: "env \<Rightarrow> int \<Rightarrow> nat \<Rightarrow> state \<Rightarrow> symbol \<Rightarrow> vertex set res" where
  "TransitionCase M i t q s =
     (case delta M q s of None \<Rightarrow> raise OracleError
      | Some r \<Rightarrow> ok (if t = 0 then {\<lparr>v_index = i, v_tier = 0, v_state = q, v_symbol = s, v_pred = None\<rparr>}
                       else {}))"

text \<open>\<open>TierArray.__getitem__\<close>: tiers are appended until \<open>tier\<close> exists.\<close>

definition tier_extend :: "tierarray \<Rightarrow> nat \<Rightarrow> tierarray" where
  "tier_extend ta t = ta @ replicate (Suc t - length ta) []"

text \<open>
  \<open>self.V[i][t][q][s]\<close>: every level is created on first access; the symbol
  level checks the alphabet and constructs the transition case.
\<close>

definition V_getitem :: "env \<Rightarrow> vaxis \<Rightarrow> int \<Rightarrow> nat \<Rightarrow> state \<Rightarrow> symbol \<Rightarrow> (vertex set \<times> vaxis) res" where
  "V_getitem M V i t q s =
     (let (ta0, V1) = ca_getitem (\<lambda>j. []) V i;
          ta = tier_extend ta0 t;
          sd0 = ta ! t;
          sd = (case map_of sd0 q of None \<Rightarrow> sd0 @ [(q, [])] | Some y \<Rightarrow> sd0);
          syd = (case map_of sd0 q of None \<Rightarrow> [] | Some y \<Rightarrow> y)
      in case map_of syd s of
           Some T \<Rightarrow> ok (T, ca_store V1 i (ta[t := sd]))
         | None \<Rightarrow>
             if s \<in> symbols M then
               bindR (TransitionCase M i t q s)
                 (\<lambda>T. ok (T, ca_store V1 i (ta[t := AList.update q (syd @ [(s, T)]) sd])))
             else raise AssertionError)"

text \<open>In-place change of the set of the transition case at \<open>(i, t, q, s)\<close>, which exists.\<close>

definition V_store :: "vaxis \<Rightarrow> int \<Rightarrow> nat \<Rightarrow> state \<Rightarrow> symbol \<Rightarrow> vertex set \<Rightarrow> vaxis" where
  "V_store V i t q s T =
     (let ta = ca_items V ! nat (i - ca_base V);
          sd = ta ! t;
          syd = (case map_of sd q of None \<Rightarrow> [] | Some y \<Rightarrow> y)
      in ca_store V i (ta[t := AList.update q (AList.update s T syd) sd]))"

subsection \<open>DynamicComputationGraph\<close>

text \<open>
  \<open>getCopyedGraph\<close> assigns the \<open>V\<close> object of a graph to its copy, so \<open>V\<close> is
  held by reference: the vertex axes live in a store and a graph carries the
  address of its own.  \<open>E\<close> is never shared.
\<close>

record heap =
  fresh :: nat
  cells :: "nat \<Rightarrow> vaxis"

record graph =
  V :: nat
  E :: "edgeslice cellarray"
  edgeCount :: int
  cntRemovedDisjointEdge :: int
  cntPrunedWalk :: int

definition DynamicComputationGraph :: "heap \<Rightarrow> heap \<times> graph" where
  "DynamicComputationGraph h =
     (h\<lparr>fresh := Suc (fresh h), cells := (cells h)(fresh h := CellArray)\<rparr>,
      \<lparr>V = fresh h, E = CellArray, edgeCount = 0, cntRemovedDisjointEdge = 0, cntPrunedWalk = 0\<rparr>)"

definition size_g :: "graph \<Rightarrow> int" where
  "size_g G = edgeCount G"

text \<open>\<open>self.E[i]\<close>, with the assertion of \<open>CellArray.__getitem__\<close> for edge slices.\<close>

definition E_getitem :: "graph \<Rightarrow> int \<Rightarrow> (edgeslice \<times> graph) res" where
  "E_getitem G i =
     (if isDefined (E G) i \<and> es_index (ca_items (E G) ! nat (i - ca_base (E G))) \<noteq> i
      then raise AssertionError
      else let (S, E') = ca_getitem EdgeSlice (E G) i in ok (S, G\<lparr>E := E'\<rparr>))"

text \<open>\<open>self.E[i][v]\<close>.\<close>

definition E_at :: "graph \<Rightarrow> int \<Rightarrow> vertex \<Rightarrow> (edgelistof \<times> graph) res" where
  "E_at G i v =
     bindR (E_getitem G i) (\<lambda>(S, G1).
     bindR (es_getitem S v) (\<lambda>(l, S').
     ok (l, G1\<lparr>E := ca_store (E G1) i S'\<rparr>)))"

text \<open>In-place change of the lists of \<open>v\<close> in slice \<open>i\<close>, both of which exist.\<close>

definition E_store :: "graph \<Rightarrow> int \<Rightarrow> vertex \<Rightarrow> edgelistof \<Rightarrow> graph" where
  "E_store G i v l =
     (let S = ca_items (E G) ! nat (i - ca_base (E G))
      in G\<lparr>E := ca_store (E G) i (S\<lparr>edges := AList.update v l (edges S)\<rparr>)\<rparr>)"

definition hasEdge :: "graph \<Rightarrow> edge \<Rightarrow> (bool \<times> graph) res" where
  "hasEdge G e =
     (let (u, v) = e; index = min (v_index u) (v_index v) in
      bindR (E_at G index u) (\<lambda>(lu, G1).
      if v \<in> set (right_outgoing lu) then ok (True, G1)
      else bindR (E_at G1 index v) (\<lambda>(lv, G2).
        if u \<in> set (right_incoming lv) then ok (True, G2) else ok (False, G2))))"

definition addVertex :: "env \<Rightarrow> heap \<Rightarrow> graph \<Rightarrow> vertex \<Rightarrow> heap res" where
  "addVertex M h G v =
     bindR (V_getitem M (cells h (V G)) (v_index v) (v_tier v) (v_state v) (v_symbol v)) (\<lambda>(T, V1).
     ok (h\<lparr>cells := (cells h)(V G := V_store V1 (v_index v) (v_tier v) (v_state v) (v_symbol v) (insert v T))\<rparr>))"

definition addEdge :: "env \<Rightarrow> heap \<Rightarrow> graph \<Rightarrow> edge \<Rightarrow> (heap \<times> graph) res" where
  "addEdge M h G e =
     (let (u, v) = e; index = min (v_index u) (v_index v) in
      bindR (E_getitem G index) (\<lambda>(S, G1).
      if index \<noteq> es_index S then raise AssertionError
      else if abs (v_index u - v_index v) = 0 then raise AssertionError
      else bindR (hasEdge G1 e) (\<lambda>(b, G2).
        if b then ok (h, G2)
        else bindR (addVertex M h G2 u) (\<lambda>h1.
             bindR (addVertex M h1 G2 v) (\<lambda>h2.
             bindR (if v_index u < v_index v
                    then bindR (E_at G2 (v_index u) u) (\<lambda>(lu, G3).
                         let G4 = E_store G3 (v_index u) u (lu\<lparr>right_outgoing := right_outgoing lu @ [v]\<rparr>) in
                         bindR (E_at G4 (v_index u) v) (\<lambda>(lv, G5).
                         ok (E_store G5 (v_index u) v (lv\<lparr>left_incoming := left_incoming lv @ [u]\<rparr>))))
                    else bindR (E_at G2 (v_index v) u) (\<lambda>(lu, G3).
                         let G4 = E_store G3 (v_index v) u (lu\<lparr>left_outgoing := left_outgoing lu @ [v]\<rparr>) in
                         bindR (E_at G4 (v_index v) v) (\<lambda>(lv, G5).
                         ok (E_store G5 (v_index v) v (lv\<lparr>right_incoming := right_incoming lv @ [u]\<rparr>)))))
               (\<lambda>G6.
             bindR (E_getitem G6 index) (\<lambda>(S6, G7).
             let G8 = G7\<lparr>E := ca_store (E G7) index (S6\<lparr>es_edgeCount := es_edgeCount S6 + 1\<rparr>)\<rparr>
             in ok (h2, G8\<lparr>edgeCount := edgeCount G8 + 1\<rparr>))))))))"

text \<open>\<open>list.remove\<close> raises \<open>ValueError\<close> when the element is not in the list.\<close>

definition py_remove :: "'a \<Rightarrow> 'a list \<Rightarrow> 'a list res" where
  "py_remove x xs = (if x \<in> set xs then ok (remove1 x xs) else raise ValueError)"

definition removeEdge :: "graph \<Rightarrow> edge \<Rightarrow> graph res" where
  "removeEdge G e =
     (let (u, v) = e in
      bindR (hasEdge G e) (\<lambda>(b, G1).
      if \<not> b then ok G1
      else bindR (if v_index u < v_index v
                  then bindR (E_at G1 (v_index u) u) (\<lambda>(lu, G2).
                       bindR (py_remove v (right_outgoing lu)) (\<lambda>ro.
                       let G3 = E_store G2 (v_index u) u (lu\<lparr>right_outgoing := ro\<rparr>) in
                       bindR (E_at G3 (v_index u) v) (\<lambda>(lv, G4).
                       bindR (py_remove u (left_incoming lv)) (\<lambda>li.
                       let G5 = E_store G4 (v_index u) v (lv\<lparr>left_incoming := li\<rparr>) in
                       bindR (E_getitem G5 (v_index u)) (\<lambda>(S, G6).
                       ok (G6\<lparr>E := ca_store (E G6) (v_index u) (S\<lparr>es_edgeCount := es_edgeCount S - 1\<rparr>)\<rparr>))))))
                  else bindR (E_at G1 (v_index v) u) (\<lambda>(lu, G2).
                       bindR (py_remove v (left_outgoing lu)) (\<lambda>lo.
                       let G3 = E_store G2 (v_index v) u (lu\<lparr>left_outgoing := lo\<rparr>) in
                       bindR (E_at G3 (v_index v) v) (\<lambda>(lv, G4).
                       bindR (py_remove u (right_incoming lv)) (\<lambda>ri.
                       let G5 = E_store G4 (v_index v) v (lv\<lparr>right_incoming := ri\<rparr>) in
                       bindR (E_getitem G5 (v_index v)) (\<lambda>(S, G6).
                       ok (G6\<lparr>E := ca_store (E G6) (v_index v) (S\<lparr>es_edgeCount := es_edgeCount S - 1\<rparr>)\<rparr>)))))))
             (\<lambda>G7. ok (G7\<lparr>edgeCount := edgeCount G7 - 1\<rparr>))))"


subsection \<open>TransitionCase.vertex\<close>

text \<open>
  \<open>T.vertex(P)\<close> on the transition case \<open>T\<close> whose set is \<open>S\<close>; the result is the
  returned value (\<open>None\<close> for Python's \<open>None\<close>) and the set afterwards.  On tier 0 the
  one member is returned.  Above, after the two assertions, the members are filtered
  by \<open>x.state == P.state and x.symbol == P.symbol\<close>: \<open>x\<close> is a \<open>vertex\<close>, whose
  \<open>state\<close> is a method, and \<open>P.state\<close> is a \<open>str\<close>, so the comparison is \<open>False\<close> for
  every member; a vertex is constructed and added to the set, which holds one
  member per key.
\<close>

definition tc_vertex :: "env \<Rightarrow> tcase \<Rightarrow> vertex set \<Rightarrow> tcase option \<Rightarrow> (vertex option \<times> vertex set) res" where
  "tc_vertex M T S P =
     (if t_tier T = 0 then
        (case P of Some p \<Rightarrow> ok (None, S)
         | None \<Rightarrow> (case vorder M S of [] \<Rightarrow> raise IndexError | x # xs \<Rightarrow> ok (Some x, S)))
      else case P of None \<Rightarrow> raise AttributeError
        | Some p \<Rightarrow>
            if t_index p \<noteq> t_index T then raise AssertionError
            else if int (t_tier p) \<noteq> int (t_tier T) - 1 then raise AssertionError
            else let items = filter (\<lambda>x. False) (vorder M S) in
              (case items of x # xs \<Rightarrow> ok (Some x, S)
               | [] \<Rightarrow> let v = \<lparr>v_index = t_index T, v_tier = t_tier T, v_state = t_state T,
                                 v_symbol = t_symbol T, v_pred = Some (t_state p, t_symbol p)\<rparr>
                       in ok (Some v, insert v S)))"

subsection \<open>Loops over a list\<close>

fun foldR :: "('a \<Rightarrow> 's \<Rightarrow> 's res) \<Rightarrow> 'a list \<Rightarrow> 's \<Rightarrow> 's res" where
  "foldR f [] s = ok s"
| "foldR f (x # xs) s = bindR (f x s) (foldR f xs)"

subsection \<open>Adjacency queries\<close>

definition incomingEdgeOf :: "graph \<Rightarrow> vertex \<Rightarrow> (edge list \<times> graph) res" where
  "incomingEdgeOf G v =
     bindR (E_at G (v_index v) v) (\<lambda>(l1, G1).
     bindR (E_at G1 (v_index v - 1) v) (\<lambda>(l2, G2).
     ok (map (\<lambda>w. (w, v)) (right_incoming l1 @ left_incoming l2), G2)))"

definition outgoingEdgeOf :: "graph \<Rightarrow> vertex \<Rightarrow> (edge list \<times> graph) res" where
  "outgoingEdgeOf G v =
     bindR (E_at G (v_index v) v) (\<lambda>(l1, G1).
     bindR (E_at G1 (v_index v - 1) v) (\<lambda>(l2, G2).
     ok (map (\<lambda>w. (v, w)) (right_outgoing l1 @ left_outgoing l2), G2)))"

definition getNextEdges :: "graph \<Rightarrow> edge \<Rightarrow> (edge list \<times> graph) res" where
  "getNextEdges G e = outgoingEdgeOf G (snd e)"

definition getPrevEdges :: "graph \<Rightarrow> edge \<Rightarrow> (edge list \<times> graph) res" where
  "getPrevEdges G e = incomingEdgeOf G (fst e)"

definition isFoldingNode :: "graph \<Rightarrow> vertex \<Rightarrow> (bool \<times> graph) res" where
  "isFoldingNode G v =
     bindR (E_at G (v_index v - 1) v) (\<lambda>(l1, G1).
     if left_incoming l1 \<noteq> [] \<and> left_outgoing l1 \<noteq> [] then ok (True, G1)
     else bindR (E_at G1 (v_index v) v) (\<lambda>(l2, G2).
       ok (right_incoming l2 \<noteq> [] \<and> right_outgoing l2 \<noteq> [], G2)))"

definition isSplittingEdge :: "graph \<Rightarrow> edge \<Rightarrow> (bool \<times> graph) res" where
  "isSplittingEdge G e =
     bindR (hasEdge G e) (\<lambda>(b, G1).
     if \<not> b then raise AssertionError
     else let (u, v) = e in
       if v_index u < v_index v
       then bindR (E_at G1 (v_index u) u) (\<lambda>(l, G2). ok (length (right_outgoing l) > 1, G2))
       else bindR (E_at G1 (v_index v) u) (\<lambda>(l, G2). ok (length (left_outgoing l) > 1, G2)))"

definition isMergingEdge :: "graph \<Rightarrow> edge \<Rightarrow> (bool \<times> graph) res" where
  "isMergingEdge G e =
     bindR (hasEdge G e) (\<lambda>(b, G1).
     if \<not> b then raise AssertionError
     else let (u, v) = e in
       if v_index u < v_index v
       then bindR (E_at G1 (v_index u) v) (\<lambda>(l, G2). ok (length (left_incoming l) > 1, G2))
       else bindR (E_at G1 (v_index v) v) (\<lambda>(l, G2). ok (length (right_incoming l) > 1, G2)))"

subsection \<open>IPrecedent and ISuccedent\<close>

text \<open>
  \<open>IPrecedent\<close> returns \<open>set()\<close> on tier 0 and otherwise the transition case object at
  \<open>V[i][t-1][last_state][last_symbol]\<close>: its identity (for \<open>TransitionCase.__eq__\<close>)
  and its members.
\<close>

definition IPrecedent :: "env \<Rightarrow> heap \<Rightarrow> graph \<Rightarrow> vertex \<Rightarrow> ((tcase option \<times> vertex set) \<times> heap) res" where
  "IPrecedent M h G v =
     (if v_tier v = 0 then ok ((None, {}), h)
      else bindR (last_state v) (\<lambda>q. bindR (last_symbol v) (\<lambda>s.
        bindR (V_getitem M (cells h (V G)) (v_index v) (v_tier v - 1) q s) (\<lambda>(T, A).
        ok ((Some \<lparr>t_index = v_index v, t_tier = v_tier v - 1, t_state = q, t_symbol = s\<rparr>, T),
            h\<lparr>cells := (cells h)(V G := A)\<rparr>)))))"

text \<open>\<open>self.V[i][t]\<close>: the state dict of tier \<open>t\<close> at cell \<open>i\<close>, materialised.\<close>

definition V_tier :: "vaxis \<Rightarrow> int \<Rightarrow> nat \<Rightarrow> statedict \<times> vaxis" where
  "V_tier A i t =
     (let (ta0, A1) = ca_getitem (\<lambda>j. []) A i; ta = tier_extend ta0 t
      in (ta ! t, ca_store A1 i ta))"

text \<open>
  \<open>s.pred == v.T\<close> is \<open>TransitionCase.__eq__\<close>; with \<open>s.pred = None\<close> the reflected
  call reads \<open>None.index\<close>.
\<close>

definition pred_is :: "tcase \<Rightarrow> vertex \<Rightarrow> bool res" where
  "pred_is T w = (case pred_case w of None \<Rightarrow> raise AttributeError | Some P \<Rightarrow> ok (P = T))"

fun filterR :: "('a \<Rightarrow> bool res) \<Rightarrow> 'a list \<Rightarrow> 'a list res" where
  "filterR p [] = ok []"
| "filterR p (x # xs) = bindR (p x) (\<lambda>b. bindR (filterR p xs) (\<lambda>ys. ok (if b then x # ys else ys)))"

definition ISuccedent :: "env \<Rightarrow> heap \<Rightarrow> graph \<Rightarrow> vertex \<Rightarrow> (vertex set \<times> heap) res" where
  "ISuccedent M h G v =
     bindR (v_output M v) (\<lambda>s.
     let (sd, A0) = V_tier (cells h (V G)) (v_index v) (v_tier v + 1) in
     bindR (foldR (\<lambda>q (S, A).
              bindR (V_getitem M A (v_index v) (v_tier v + 1) q s) (\<lambda>(T, A1).
              bindR (filterR (pred_is (transitionCase v)) (vorder M T)) (\<lambda>L.
              ok (S @ L, A1))))
            (map fst sd) ([], A0)) (\<lambda>(S, A).
     ok (set S, h\<lparr>cells := (cells h)(V G := A)\<rparr>)))"

definition CountIPrecedents :: "env \<Rightarrow> heap \<Rightarrow> graph \<Rightarrow> edge \<Rightarrow> (nat \<times> heap \<times> graph) res" where
  "CountIPrecedents M h G e =
     (let i = min (v_index (fst e)) (v_index (snd e)) in
      bindR (E_getitem G i) (\<lambda>(Es, G0).
      bindR (IPrecedent M h G0 (snd e)) (\<lambda>((T, P), h1).
      bindR (foldR (\<lambda>p (cnt, G1).
               bindR (E_at G1 i p) (\<lambda>(l, G2).
               bindR (E_at G2 i p) (\<lambda>(l', G3).
               ok (cnt + length (right_outgoing l) + length (left_outgoing l'), G3))))
             (vorder M P) (0, G0)) (\<lambda>(cnt, G4).
      ok (cnt, h1, G4)))))"

definition CountISuccedents :: "env \<Rightarrow> heap \<Rightarrow> graph \<Rightarrow> edge \<Rightarrow> (nat \<times> heap \<times> graph) res" where
  "CountISuccedents M h G e =
     (let i = min (v_index (fst e)) (v_index (snd e)) in
      bindR (E_getitem G i) (\<lambda>(Es, G0).
      bindR (ISuccedent M h G0 (fst e)) (\<lambda>(S, h1).
      bindR (foldR (\<lambda>s (cnt, G1).
               bindR (E_at G1 i s) (\<lambda>(l, G2).
               bindR (E_at G2 i s) (\<lambda>(l', G3).
               ok (cnt + length (left_incoming l) + length (right_incoming l'), G3))))
             (vorder M S) (0, G0)) (\<lambda>(cnt, G4).
      ok (cnt, h1, G4)))))"

definition GetIPrecedents :: "env \<Rightarrow> heap \<Rightarrow> graph \<Rightarrow> edge \<Rightarrow> (edge set \<times> heap \<times> graph) res" where
  "GetIPrecedents M h G e =
     (let (u, v) = e in
      if v_tier v = 0 then ok ({}, h, G)
      else bindR (IPrecedent M h G v) (\<lambda>((T, Pv), h0).
           bindR (foldR (\<lambda>v' (P, h1, G1).
                    bindR (outgoingEdgeOf G1 v') (\<lambda>(out, G2).
                    foldR (\<lambda>(v'', u') (P, h2, G3).
                             bindR (IPrecedent M h2 G3 u) (\<lambda>((Tu, Pu), h3).
                             ok (if u' \<in> Pu \<or> u = u' \<or> int (v_tier u') < int (v_tier u) - 1
                                 then P @ [(v'', u')] else P, h3, G3)))
                          out (P, h1, G2)))
                  (vorder M Pv) ([], h0, G)) (\<lambda>(P, h4, G4).
           ok (set P, h4, G4))))"

definition GetISuccedents :: "env \<Rightarrow> heap \<Rightarrow> graph \<Rightarrow> edge \<Rightarrow> (edge set \<times> heap \<times> graph) res" where
  "GetISuccedents M h G e =
     (let (u, v) = e in
      bindR (ISuccedent M h G u) (\<lambda>(Su, h0).
      bindR (foldR (\<lambda>u' (S, h1, G1).
               bindR (incomingEdgeOf G1 u') (\<lambda>(inc, G2).
               foldR (\<lambda>(v', w) (S, h2, G3).
                        bindR (ISuccedent M h2 G3 v) (\<lambda>(Sv, h3).
                        ok (if v' \<in> Sv \<or> v = v' \<or> v_tier v' > v_tier v + 1
                            then S @ [(v', u')] else S, h3, G3)))
                     inc (S, h1, G2)))
             (vorder M Su) ([], h0, G)) (\<lambda>(S, h4, G4).
      ok (set S, h4, G4))))"



lemma bindR_mono [partial_function_mono]:
  fixes B :: "('x \<Rightarrow> 'y option) \<Rightarrow> 'a res" and C :: "'a \<Rightarrow> ('x \<Rightarrow> 'y option) \<Rightarrow> 'b res"
  assumes mf: "mono_option B" and mg: "\<And>y. mono_option (\<lambda>f. C y f)"
  shows "mono_option (\<lambda>f. bindR (B f) (\<lambda>y. C y f))"
proof -
  have alt: "bindR m g = Option.bind m (\<lambda>r. case r of Inl e \<Rightarrow> Some (Inl e) | Inr x \<Rightarrow> g x)"
    for m :: "'a res" and g :: "'a \<Rightarrow> 'b res"
    by (simp add: bindR_def split: option.split sum.split)
  show ?thesis
    unfolding alt
  proof (rule bind_mono [OF mf])
    fix r :: "error + 'a"
    show "mono_option (\<lambda>f. case r of Inl e \<Rightarrow> Some (Inl e) | Inr x \<Rightarrow> C x f)"
      by (cases r) (simp_all add: mg option.const_mono)
  qed
qed

section \<open>The feasible graph (feasibleGraph.py)\<close>

text \<open>
  A \<open>collections.deque\<close> used as a stack (\<open>pop\<close>, \<open>append\<close>, \<open>extend\<close>) is a list
  whose head is the right end; one used as a queue (\<open>popleft\<close>, \<open>append\<close>) is a list
  whose head is the left end.
\<close>

definition stack_of :: "'a list \<Rightarrow> 'a list" where
  "stack_of xs = rev xs"

definition extend :: "'a list \<Rightarrow> 'a list \<Rightarrow> 'a list" where
  "extend T xs = rev xs @ T"

subsection \<open>GetWeakCeilingAdjacentEdges\<close>

partial_function (option) weakCeiling_loop ::
  "env \<Rightarrow> vertex \<Rightarrow> heap \<Rightarrow> graph \<Rightarrow> vertex list \<Rightarrow> vertex set \<Rightarrow> edge set \<Rightarrow> (edge set \<times> heap \<times> graph) res" where
  "weakCeiling_loop M v0 h G Q Vv C =
     (case Q of [] \<Rightarrow> ok (C, h, G)
      | u # Q' \<Rightarrow>
          if u \<in> Vv then weakCeiling_loop M v0 h G Q' Vv C
          else bindR (isFoldingNode G u) (\<lambda>(b, G1).
               if b \<or> u = v0
               then bindR (IPrecedent M h G1 u) (\<lambda>((T, P), h1).
                    weakCeiling_loop M v0 h1 G1 (Q' @ vorder M P) (insert u Vv) C)
               else bindR (incomingEdgeOf G1 u) (\<lambda>(inc, G2).
                    weakCeiling_loop M v0 h G2 Q' (insert u Vv) (C \<union> set inc))))"

declare weakCeiling_loop.simps [code]

definition GetWeakCeilingAdjacentEdges ::
  "env \<Rightarrow> heap \<Rightarrow> graph \<Rightarrow> edge \<Rightarrow> edge set \<Rightarrow> (edge set \<times> heap \<times> graph) res" where
  "GetWeakCeilingAdjacentEdges M h G e0 Ef =
     (let (u0, v0) = e0;
          Q = (if e0 \<in> Ef then [u0, v0] else [u0])
      in weakCeiling_loop M v0 h G Q {} {})"

subsection \<open>collectEdgesWithPath and ComputeCoverEdges\<close>

text \<open>
  The cover \<open>C\<close> is a \<open>CellArray\<close> of sets that is read and written only as
  \<open>C[index(e)]\<close> for the edge \<open>e\<close> at hand, and never iterated: it is the set of its
  edges.
\<close>

partial_function (option) collect_loop ::
  "edge set \<Rightarrow> graph \<Rightarrow> edge list \<Rightarrow> edge set \<Rightarrow> edge set \<Rightarrow> (edge set \<times> graph) res" where
  "collect_loop C0 G Q Ev C =
     (case Q of [] \<Rightarrow> ok (C, G)
      | e # Q' \<Rightarrow>
          if e \<in> Ev then collect_loop C0 G Q' Ev C
          else bindR (incomingEdgeOf G (fst e)) (\<lambda>(inc, G1).
               collect_loop C0 G1 (extend Q' inc) (insert e Ev) (if e \<in> C0 then insert e C else C)))"

declare collect_loop.simps [code]

definition collectEdgesWithPath :: "env \<Rightarrow> graph \<Rightarrow> edge set \<Rightarrow> edge set \<Rightarrow> (edge set \<times> graph) res" where
  "collectEdgesWithPath M G C0 Ef = collect_loop C0 G (stack_of (eorder M Ef)) {} {}"

text \<open>\<open>for e in Ec: if e in C[i]: continue; C[i].add(e); Q.append(e)\<close>\<close>

fun add_new :: "edge list \<Rightarrow> edge list \<times> edge set \<Rightarrow> edge list \<times> edge set" where
  "add_new [] QC = QC"
| "add_new (e # es) (Q, C) = (if e \<in> C then add_new es (Q, C) else add_new es (Q @ [e], insert e C))"

partial_function (option) cover_loop ::
  "env \<Rightarrow> edge set \<Rightarrow> heap \<Rightarrow> graph \<Rightarrow> edge list \<Rightarrow> edge set \<Rightarrow> (edge set \<times> heap \<times> graph) res" where
  "cover_loop M Ef h G Q C =
     (case Q of [] \<Rightarrow> ok (C, h, G)
      | f # Q' \<Rightarrow>
          bindR (GetWeakCeilingAdjacentEdges M h G f Ef) (\<lambda>(Ec, h1, G1).
          let (Q1, C1) = add_new (eorder M Ec) (Q', C)
          in cover_loop M Ef h1 G1 Q1 C1))"

declare cover_loop.simps [code]

definition ComputeCoverEdges :: "env \<Rightarrow> heap \<Rightarrow> graph \<Rightarrow> edge set \<Rightarrow> (edge set \<times> heap \<times> graph) res" where
  "ComputeCoverEdges M h G Ef =
     bindR (cover_loop M Ef h G (eorder M Ef) Ef) (\<lambda>(C, h1, G1).
     bindR (collectEdgesWithPath M G1 C Ef) (\<lambda>(C', G2).
     ok (C', h1, G2)))"

subsection \<open>GetStepPendentEdgesWithReachableGraph\<close>

text \<open>
  The four tests of the loop body on the edge \<open>f\<close> just added to \<open>H\<close>: they mark
  \<open>f\<close> as step-pendent and extend the stack \<open>T\<close> by the next and previous edges of
  \<open>f\<close> in \<open>G\<close>.
\<close>

definition reach_step ::
  "env \<Rightarrow> edge set \<Rightarrow> vertex set \<Rightarrow> edge set \<Rightarrow> heap \<Rightarrow> graph \<Rightarrow> edge list \<Rightarrow> edge set \<Rightarrow> edge
   \<Rightarrow> (edge list \<times> edge set \<times> heap \<times> graph) res" where
  "reach_step M C V0 Ef h1 G T' Er f =
     bindR (if f \<notin> C
            then bindR (CountISuccedents M h1 G f) (\<lambda>(n, h2, G1).
                 ok (if n = 0 then insert f Er else Er, h2, G1))
            else ok (Er, h1, G)) (\<lambda>(Er1, h2, G1).
     bindR (if v_tier (snd f) > 0
            then bindR (CountIPrecedents M h2 G1 f) (\<lambda>(n, h3, G2).
                 ok (if n = 0 then insert f Er1 else Er1, h3, G2))
            else ok (Er1, h2, G1)) (\<lambda>(Er2, h3, G2).
     bindR (if f \<notin> Ef
            then bindR (getNextEdges G2 f) (\<lambda>(En, G3).
                 ok (if En = [] then (T', insert f Er2, G3) else (extend T' En, Er2, G3)))
            else ok (T', Er2, G2)) (\<lambda>(T1, Er3, G3).
     bindR (if fst f \<notin> V0
            then bindR (getPrevEdges G3 f) (\<lambda>(Eb, G4).
                 ok (if Eb = [] then (T1, insert f Er3, G4) else (extend T1 Eb, Er3, G4)))
            else ok (T1, Er3, G3)) (\<lambda>(T2, Er4, G4).
     ok (T2, Er4, h3, G4)))))"

partial_function (option) reach_loop ::
  "env \<Rightarrow> edge set \<Rightarrow> vertex set \<Rightarrow> edge set \<Rightarrow> heap \<Rightarrow> graph \<Rightarrow> graph \<Rightarrow> edge list \<Rightarrow> edge set
   \<Rightarrow> (graph \<times> edge set \<times> heap \<times> graph) res" where
  "reach_loop M C V0 Ef h G H T Er =
     (case T of [] \<Rightarrow> ok (H, Er, h, G)
      | f # T' \<Rightarrow>
          bindR (hasEdge H f) (\<lambda>(b, H1).
          if b then reach_loop M C V0 Ef h G H1 T' Er
          else bindR (addEdge M h H1 f) (\<lambda>(h1, H2).
               bindR (reach_step M C V0 Ef h1 G T' Er f) (\<lambda>(T2, Er4, h3, G4).
               reach_loop M C V0 Ef h3 G4 H2 T2 Er4))))"

declare reach_loop.simps [code]

definition GetStepPendentEdgesWithReachableGraph ::
  "env \<Rightarrow> heap \<Rightarrow> graph \<Rightarrow> edge set \<Rightarrow> vertex set \<Rightarrow> edge set \<Rightarrow> (graph \<times> edge set \<times> heap \<times> graph) res" where
  "GetStepPendentEdgesWithReachableGraph M h G C V0 Ef =
     bindR (foldR (\<lambda>v0 (E0, G1).
              bindR (outgoingEdgeOf G1 v0) (\<lambda>(out, G2). ok (E0 \<union> set out, G2)))
            (vorder M V0) ({}, G)) (\<lambda>(E0, G3).
     let (h1, H) = DynamicComputationGraph h
     in reach_loop M C V0 Ef h1 G3 H (stack_of (eorder M E0)) {})"

subsection \<open>ComputeFeasibleGraph\<close>

definition cascade_step ::
  "env \<Rightarrow> edge set \<Rightarrow> edge set \<Rightarrow> heap \<Rightarrow> graph \<Rightarrow> edge list \<Rightarrow> edge \<Rightarrow> (heap \<times> graph \<times> edge list) res" where
  "cascade_step M C Ef h H T e =
     bindR (isMergingEdge H e) (\<lambda>(m, H1).
     bindR (if \<not> m then bindR (getNextEdges H1 e) (\<lambda>(En, H2). ok (extend T En, H2))
            else ok (T, H1)) (\<lambda>(T1, H2).
     bindR (GetISuccedents M h H2 e) (\<lambda>(Es, h1, H3).
     bindR (foldR (\<lambda>f (T, h, H).
              bindR (CountIPrecedents M h H f) (\<lambda>(n, h', H').
              ok (if n = 1 then f # T else T, h', H')))
            (eorder M Es) (T1, h1, H3)) (\<lambda>(T2, h2, H4).
     bindR (GetIPrecedents M h2 H4 e) (\<lambda>(Ep, h3, H5).
     bindR (foldR (\<lambda>f (T, h, H).
              if f \<in> C then ok (T, h, H)
              else bindR (CountISuccedents M h H f) (\<lambda>(n, h', H').
                   ok (if n = 1 then f # T else T, h', H')))
            (eorder M Ep) (T2, h3, H5)) (\<lambda>(T3, h4, H6).
     bindR (isSplittingEdge H6 e) (\<lambda>(s, H7).
     bindR (if \<not> s then bindR (getPrevEdges H7 e) (\<lambda>(Eb, H8).
                          ok (extend T3 (filter (\<lambda>f. f \<notin> Ef) Eb), H8))
            else ok (T3, H7)) (\<lambda>(T4, H8).
     bindR (removeEdge H8 e) (\<lambda>H9.
     ok (h4, H9, T4))))))))))"

partial_function (option) cascade_loop ::
  "env \<Rightarrow> edge set \<Rightarrow> edge set \<Rightarrow> heap \<Rightarrow> graph \<Rightarrow> edge list \<Rightarrow> edge set \<Rightarrow> (graph \<times> heap) res" where
  "cascade_loop M C Ef h H T Ef' =
     (case T of [] \<Rightarrow> ok (H, h)
      | e # T' \<Rightarrow>
          bindR (hasEdge H e) (\<lambda>(b, H0).
          if \<not> b then cascade_loop M C Ef h H0 T' Ef'
          else bindR (cascade_step M C Ef h H0 T' e) (\<lambda>(h1, H1, T1).
               if e \<in> Ef' then
                 (if Ef' - {e} = {} then
                    (let (h2, H2) = DynamicComputationGraph h1 in ok (H2, h2))
                  else cascade_loop M C Ef h1 H1 T1 (Ef' - {e}))
               else cascade_loop M C Ef h1 H1 T1 Ef')))"

declare cascade_loop.simps [code]

definition ComputeFeasibleGraph ::
  "env \<Rightarrow> heap \<Rightarrow> graph \<Rightarrow> vertex set \<Rightarrow> edge set \<Rightarrow> edge set \<Rightarrow> (graph \<times> heap \<times> graph) res" where
  "ComputeFeasibleGraph M h G V0 Ef Er' =
     bindR (ComputeCoverEdges M h G Ef) (\<lambda>(C, h1, G1).
     bindR (GetStepPendentEdgesWithReachableGraph M h1 G1 C V0 Ef) (\<lambda>(H, Er, h2, G2).
     bindR (cascade_loop M C Ef h2 H (stack_of (eorder M (Er \<union> Er'))) Ef) (\<lambda>(H', h3).
     ok (H', h3, G2))))"



subsection \<open>getCopyedGraph\<close>

partial_function (option) minEdgeIndex_loop :: "graph \<Rightarrow> int \<Rightarrow> (int \<times> graph) res" where
  "minEdgeIndex_loop G m =
     bindR (E_getitem G m) (\<lambda>(S, G1).
     if es_edgeCount S = 0 then minEdgeIndex_loop G1 (m + 1) else ok (m, G1))"

declare minEdgeIndex_loop.simps [code]

partial_function (option) maxEdgeIndex_loop :: "graph \<Rightarrow> int \<Rightarrow> (int \<times> graph) res" where
  "maxEdgeIndex_loop G m =
     bindR (E_getitem G m) (\<lambda>(S, G1).
     if es_edgeCount S = 0 then maxEdgeIndex_loop G1 (m - 1) else ok (m, G1))"

declare maxEdgeIndex_loop.simps [code]

definition minEdgeIndex :: "heap \<Rightarrow> graph \<Rightarrow> (int \<times> graph) res" where
  "minEdgeIndex h G = minEdgeIndex_loop G (ca_base (cells h (V G)))"

definition maxEdgeIndex :: "heap \<Rightarrow> graph \<Rightarrow> (int \<times> graph) res" where
  "maxEdgeIndex h G =
     maxEdgeIndex_loop G (ca_base (cells h (V G)) + int (length (ca_items (cells h (V G)))) - 1)"

text \<open>The body of the loop over \<open>self.E[i].edges.values()\<close> for one slice.\<close>

definition copy_slice :: "env \<Rightarrow> edgeslice \<Rightarrow> heap \<times> graph \<Rightarrow> (heap \<times> graph) res" where
  "copy_slice M S =
     foldR (\<lambda>(u, l) hC.
        bindR (foldR (\<lambda>v (h, C). addEdge M h C (v, u)) (right_incoming l) hC)
              (foldR (\<lambda>v (h, C). addEdge M h C (u, v)) (right_outgoing l)))
       (edges S)"

definition getCopyedGraph :: "env \<Rightarrow> heap \<Rightarrow> graph \<Rightarrow> (graph \<times> heap \<times> graph) res" where
  "getCopyedGraph M h G =
     (let (h0, C0) = DynamicComputationGraph h in
      if size_g G = 0 then ok (C0, h0, G)
      else let C1 = C0\<lparr>V := V G\<rparr> in
        bindR (minEdgeIndex h0 G) (\<lambda>(m, G1).
        bindR (maxEdgeIndex h0 G1) (\<lambda>(mx, G2).
        bindR (foldR (\<lambda>i (h, C, G).
                 bindR (E_getitem G i) (\<lambda>(S, G').
                 bindR (copy_slice M S (h, C)) (\<lambda>(h', C'). ok (h', C', G'))))
               [m..mx] (h0, C1, G2)) (\<lambda>(h3, C3, G3).
        ok (C3, h3, G3)))))"

section \<open>The walk verifier (verificationWalk.py)\<close>

subsection \<open>AddFinalEdgesOfObsoleteWalks\<close>

partial_function (option) obsolete_loop ::
  "env \<Rightarrow> heap \<Rightarrow> graph \<Rightarrow> graph \<Rightarrow> edge list \<Rightarrow> edge set \<Rightarrow> edge set
   \<Rightarrow> (edge set \<times> heap \<times> graph \<times> graph) res" where
  "obsolete_loop M h GU G T Ev Eo =
     (case T of [] \<Rightarrow> ok (Eo, h, GU, G)
      | e # T' \<Rightarrow>
          if e \<in> Ev then obsolete_loop M h GU G T' Ev Eo
          else bindR (hasEdge G e) (\<lambda>(b, G1).
               if b then bindR (getNextEdges GU e) (\<lambda>(En, GU1).
                         obsolete_loop M h GU1 G1 (extend T' En) (insert e Ev) Eo)
               else if v_tier (snd e) > 0
               then bindR (CountIPrecedents M h G1 e) (\<lambda>(n, h1, G2).
                    if n > 0 then bindR (addEdge M h1 G2 e) (\<lambda>(h2, G3).
                                  obsolete_loop M h2 GU G3 T' (insert e Ev) (insert e Eo))
                    else obsolete_loop M h1 GU G2 T' (insert e Ev) Eo)
               else obsolete_loop M h GU G1 T' (insert e Ev) Eo))"

declare obsolete_loop.simps [code]

definition AddFinalEdgesOfObsoleteWalks ::
  "env \<Rightarrow> heap \<Rightarrow> graph \<Rightarrow> graph \<Rightarrow> vertex set \<Rightarrow> (edge set \<times> heap \<times> graph \<times> graph) res" where
  "AddFinalEdgesOfObsoleteWalks M h GU G V0 =
     bindR (foldR (\<lambda>v0 (ES, GU1).
              bindR (outgoingEdgeOf GU1 v0) (\<lambda>(out, GU2). ok (ES \<union> set out, GU2)))
            (vorder M V0) ({}, GU)) (\<lambda>(ES, GU3).
     obsolete_loop M h GU3 G (stack_of (eorder M ES)) {} {})"

subsection \<open>FindFirstMergingEdgeOrFinalEdge and PruneWalk\<close>

fun FindFirstMergingEdgeOrFinalEdge :: "graph \<Rightarrow> edge list \<Rightarrow> (edge \<times> graph) res" where
  "FindFirstMergingEdgeOrFinalEdge G [] = raise IndexError"
| "FindFirstMergingEdgeOrFinalEdge G [e] = ok (e, G)"
| "FindFirstMergingEdgeOrFinalEdge G (e # e' # W) =
     bindR (isMergingEdge G e) (\<lambda>(b, G1).
     if b then ok (e, G1) else FindFirstMergingEdgeOrFinalEdge G1 (e' # W))"

text \<open>\<open>any(map(lambda f_: G.hasEdge(f_), Ef))\<close> stops at the first edge found.\<close>

fun any_hasEdge :: "graph \<Rightarrow> edge list \<Rightarrow> (bool \<times> graph) res" where
  "any_hasEdge G [] = ok (False, G)"
| "any_hasEdge G (f # fs) =
     bindR (hasEdge G f) (\<lambda>(b, G1). if b then ok (True, G1) else any_hasEdge G1 fs)"

definition PruneWalk ::
  "env \<Rightarrow> heap \<Rightarrow> graph \<Rightarrow> graph \<Rightarrow> vertex set \<Rightarrow> edge set \<Rightarrow> edge list \<Rightarrow> bool
   \<Rightarrow> (graph \<times> heap \<times> graph \<times> graph) res" where
  "PruneWalk M h GU G V0 Ef W preserveObsolete =
     bindR (FindFirstMergingEdgeOrFinalEdge G W) (\<lambda>(e', G1).
     bindR (if preserveObsolete then AddFinalEdgesOfObsoleteWalks M h GU G1 V0
            else ok ({}, h, GU, G1)) (\<lambda>(Eo, h1, GU1, G2).
     let GU2 = GU1\<lparr>cntPrunedWalk := cntPrunedWalk GU1 + 1\<rparr> in
     bindR (removeEdge G2 e') (\<lambda>G3.
     bindR (ComputeFeasibleGraph M h1 G3 V0 (Eo \<union> Ef) {}) (\<lambda>(G', h2, G4).
     bindR (addEdge M h2 G4 e') (\<lambda>(h3, G5).
     bindR (if size_g G' > 0 then any_hasEdge G5 (eorder M Ef) else ok (False, G5)) (\<lambda>(b, G6).
     bindR (if size_g G' > 0 \<and> b
            then foldR (\<lambda>e G'. bindR (hasEdge G' e) (\<lambda>(b, G'1).
                          if b then removeEdge G'1 e else ok G'1))
                   (eorder M Eo) G'
            else ok G') (\<lambda>G''.
     ok (G'', h3, GU2, G6))))))))"

subsection \<open>TakeArbitraryWalk\<close>

text \<open>\<open>CellArray.__setitem__\<close> of the surface \<open>S\<close>, a cell array of kind 0.\<close>

definition ca_setitem :: "'a cellarray \<Rightarrow> int \<Rightarrow> 'a \<Rightarrow> 'a cellarray res" where
  "ca_setitem A i x =
     (if \<not> (i \<le> ca_base A + int (length (ca_items A)) \<and> i \<ge> ca_base A - 1) then raise AssertionError
      else if i = ca_base A - 1 then ok (A\<lparr>ca_items := x # ca_items A, ca_base := ca_base A - 1\<rparr>)
      else if i = int (length (ca_items A)) + ca_base A then ok (A\<lparr>ca_items := ca_items A @ [x]\<rparr>)
      else ok (ca_store A i x))"

text \<open>
  The filter of \<open>TakeArbitraryWalk\<close> on one candidate edge:
  \<open>e[1].tier()==0 or G.IPrecedent(e[1])==S[e[1].index()]\<close>.
\<close>

definition consistent ::
  "env \<Rightarrow> edge \<Rightarrow> heap \<times> graph \<times> tcase option cellarray \<Rightarrow> (bool \<times> heap \<times> graph \<times> tcase option cellarray) res" where
  "consistent M e = (\<lambda>(h, G, S).
     if v_tier (snd e) = 0 then ok (True, h, G, S)
     else bindR (IPrecedent M h G (snd e)) (\<lambda>((T, P), h1).
          let (x, S1) = ca_getitem (\<lambda>j. None) S (v_index (snd e)) in
          case x of None \<Rightarrow> raise AttributeError
          | Some Tc \<Rightarrow> ok (T = Some Tc, h1, G, S1)))"

fun filter_consistent ::
  "env \<Rightarrow> edge list \<Rightarrow> heap \<times> graph \<times> tcase option cellarray \<Rightarrow> (edge list \<times> heap \<times> graph \<times> tcase option cellarray) res" where
  "filter_consistent M [] st = ok ([], st)"
| "filter_consistent M (e # es) st =
     bindR (consistent M e st) (\<lambda>(b, st1).
     bindR (filter_consistent M es st1) (\<lambda>(ys, st2).
     ok (if b then e # ys else ys, st2)))"

partial_function (option) walk_loop ::
  "env \<Rightarrow> heap \<Rightarrow> graph \<Rightarrow> tcase option cellarray \<Rightarrow> edge list \<Rightarrow> edge option
   \<Rightarrow> (edge list \<times> heap \<times> graph) res" where
  "walk_loop M h G S W e =
     (case e of None \<Rightarrow> ok (W, h, G)
      | Some (u, v) \<Rightarrow>
          bindR (ca_setitem S (v_index u) (Some (transitionCase u))) (\<lambda>S1.
          bindR (getNextEdges G (u, v)) (\<lambda>(En, G1).
          bindR (filter_consistent M En (h, G1, S1)) (\<lambda>(EN, h1, G2, S2).
          walk_loop M h1 G2 S2 (W @ [(u, v)]) (case EN of [] \<Rightarrow> None | e' # es \<Rightarrow> Some e')))))"

declare walk_loop.simps [code]

definition TakeArbitraryWalk :: "env \<Rightarrow> heap \<Rightarrow> graph \<Rightarrow> vertex set \<Rightarrow> (edge list \<times> heap \<times> graph) res" where
  "TakeArbitraryWalk M h G V0 =
     (case vorder M V0 of [] \<Rightarrow> raise IndexError
      | v0 # vs \<Rightarrow>
          bindR (outgoingEdgeOf G v0) (\<lambda>(ES, G1).
          walk_loop M h G1 CellArray [] (case ES of [] \<Rightarrow> None | e # es \<Rightarrow> Some e)))"

subsection \<open>FindDisjointEdge, FindFeasibleOrDisjointEdge and VerifyExistenceOfWalk\<close>

fun FindDisjointEdge :: "graph \<Rightarrow> edge list \<Rightarrow> (edge option \<times> graph) res" where
  "FindDisjointEdge R [] = ok (None, R)"
| "FindDisjointEdge R (e # W) =
     bindR (hasEdge R e) (\<lambda>(b, R1). if \<not> b then ok (Some e, R1) else FindDisjointEdge R1 W)"

partial_function (option) ffod_loop ::
  "env \<Rightarrow> vertex set \<Rightarrow> edge \<Rightarrow> heap \<Rightarrow> graph \<Rightarrow> graph \<Rightarrow> graph
   \<Rightarrow> ((edge option \<times> edge list option) \<times> heap \<times> graph) res" where
  "ffod_loop M V0 ef h GU G R =
     (if \<not> size_g G > 0 then ok ((None, None), h, GU)
      else bindR (TakeArbitraryWalk M h G V0) (\<lambda>(W, h1, G1).
           if W = [] then ok ((None, None), h1, GU)
           else if ef \<in> set W then ok ((Some ef, Some W), h1, GU)
           else if size_g R > 0
           then bindR (FindDisjointEdge R W) (\<lambda>(f, R1). ok ((f, Some W), h1, GU))
           else if size_g G1 > 0
           then bindR (PruneWalk M h1 GU G1 V0 {ef} W False) (\<lambda>(H, h2, GU1, G2).
                if size_g H = 0
                then bindR (foldR (\<lambda>e (h, R). addEdge M h R e) W (h2, R)) (\<lambda>(h3, R1).
                     bindR (PruneWalk M h3 GU1 G2 V0 {ef} W True) (\<lambda>(G3, h4, GU2, G4).
                     ffod_loop M V0 ef h4 GU2 G3 R1))
                else ffod_loop M V0 ef h2 GU1 H R)
           else ffod_loop M V0 ef h1 GU G1 R))"

declare ffod_loop.simps [code]

definition FindFeasibleOrDisjointEdge ::
  "env \<Rightarrow> heap \<Rightarrow> graph \<Rightarrow> graph \<Rightarrow> vertex set \<Rightarrow> edge
   \<Rightarrow> ((edge option \<times> edge list option) \<times> heap \<times> graph \<times> graph) res" where
  "FindFeasibleOrDisjointEdge M h GU G V0 ef =
     bindR (getCopyedGraph M h G) (\<lambda>(C, h1, G1).
     let (h2, R) = DynamicComputationGraph h1 in
     bindR (ffod_loop M V0 ef h2 GU C R) (\<lambda>(r, h3, GU1).
     ok (r, h3, GU1, G1)))"

partial_function (option) verify_loop ::
  "env \<Rightarrow> vertex set \<Rightarrow> edge \<Rightarrow> heap \<Rightarrow> graph \<Rightarrow> graph \<Rightarrow> (edge list option \<times> heap \<times> graph) res" where
  "verify_loop M V0 ef h G0 G =
     (if \<not> size_g G > 0 then ok (None, h, G0)
      else bindR (FindFeasibleOrDisjointEdge M h G0 G V0 ef) (\<lambda>((e, W), h1, G01, G1).
           case e of None \<Rightarrow> ok (None, h1, G01)
           | Some e' \<Rightarrow>
               if e' \<in> {ef} then ok (W, h1, G01)
               else let G02 = G01\<lparr>cntRemovedDisjointEdge := cntRemovedDisjointEdge G01 + 1\<rparr> in
                 bindR (removeEdge G1 e') (\<lambda>G2.
                 bindR (ComputeFeasibleGraph M h1 G2 V0 {ef} {}) (\<lambda>(G3, h2, G4).
                 verify_loop M V0 ef h2 G02 G3))))"

declare verify_loop.simps [code]

definition VerifyExistenceOfWalk ::
  "env \<Rightarrow> heap \<Rightarrow> graph \<Rightarrow> vertex set \<Rightarrow> edge \<Rightarrow> (edge list option \<times> heap \<times> graph) res" where
  "VerifyExistenceOfWalk M h G0 V0 ef =
     bindR (ComputeFeasibleGraph M h G0 V0 {ef} {}) (\<lambda>(G, h1, G01).
     verify_loop M V0 ef h1 G01 G)"


section \<open>What the graph primitives do\<close>

subsection \<open>Results and cell arrays\<close>

lemma bindR_ok [simp]: "bindR (ok x) f = f x"
  by (simp add: bindR_def)

lemma bindR_raise [simp]: "bindR (raise e) f = raise e"
  by (simp add: bindR_def)

lemma bindR_None [simp]: "bindR None f = None"
  by (simp add: bindR_def)

lemma bindR_eq_ok: "bindR m f = ok y \<longleftrightarrow> (\<exists>x. m = ok x \<and> f x = ok y)"
  by (auto simp: bindR_def split: option.splits sum.splits)

lemma ca_getitem_fst: "fst (ca_getitem new A i) = ca_view new A i"
  by (simp add: ca_getitem_def ca_view_def Let_def)

lemma ca_getitem_defined: "isDefined (snd (ca_getitem new A i)) i"
  by (auto simp: ca_getitem_def isDefined_def Let_def)

lemma ca_getitem_defined_mono: "isDefined A j \<Longrightarrow> isDefined (snd (ca_getitem new A i)) j"
  by (auto simp: ca_getitem_def isDefined_def Let_def)

lemma ca_view_getitem: "ca_view new (snd (ca_getitem new A i)) j = ca_view new A j"
proof (cases "isDefined A i")
  case True
  then show ?thesis by (simp add: ca_getitem_def)
next
  case False
  let ?b = "ca_base A" and ?n = "int (length (ca_items A))"
  from False consider (lo) "i < ?b" | (hi) "?b + ?n \<le> i"
    by (auto simp: isDefined_def)
  then show ?thesis
  proof cases
    case lo
    have eq: "nat (j - i) - nat (?b - i) = nat (j - ?b)" if "?b \<le> j"
      using lo that by linarith
    show ?thesis using False lo
      by (auto simp: ca_getitem_def ca_view_def isDefined_def Let_def nth_append eq)
  next
    case hi
    then show ?thesis using False
      by (auto simp: ca_getitem_def ca_view_def isDefined_def Let_def nth_append)
  qed
qed

lemma ca_view_store: "isDefined A i \<Longrightarrow> ca_view new (ca_store A i x) j = (if j = i then x else ca_view new A j)"
  by (auto simp: ca_view_def ca_store_def isDefined_def nth_list_update)

lemma isDefined_store [simp]: "isDefined (ca_store A i x) j = isDefined A j"
  by (simp add: ca_store_def isDefined_def)

subsection \<open>Reading edge slices\<close>

definition slice_view :: "graph \<Rightarrow> int \<Rightarrow> edgeslice" where
  "slice_view G i = ca_view EdgeSlice (E G) i"

definition lists_of :: "edgeslice \<Rightarrow> vertex \<Rightarrow> edgelistof" where
  "lists_of S v = (case map_of (edges S) v of None \<Rightarrow> EdgeListOf | Some l \<Rightarrow> l)"

definition lists_at :: "graph \<Rightarrow> int \<Rightarrow> vertex \<Rightarrow> edgelistof" where
  "lists_at G i v = lists_of (slice_view G i) v"

definition slice_total :: "graph \<Rightarrow> int" where
  "slice_total G = sum_list (map es_edgeCount (ca_items (E G)))"

definition E_ok :: "graph \<Rightarrow> bool" where
  "E_ok G \<longleftrightarrow> (\<forall>i. es_index (slice_view G i) = i)"

definition sim :: "graph \<Rightarrow> graph \<Rightarrow> bool" where
  "sim G G' \<longleftrightarrow> E_ok G' \<and> lists_at G' = lists_at G
     \<and> (\<forall>j. es_edgeCount (slice_view G' j) = es_edgeCount (slice_view G j))
     \<and> (\<forall>j. isDefined (E G) j \<longrightarrow> isDefined (E G') j)
     \<and> slice_total G' = slice_total G
     \<and> edgeCount G' = edgeCount G \<and> V G' = V G
     \<and> cntRemovedDisjointEdge G' = cntRemovedDisjointEdge G \<and> cntPrunedWalk G' = cntPrunedWalk G"

lemma sim_refl: "E_ok G \<Longrightarrow> sim G G"
  by (simp add: sim_def)

lemma sim_trans: "sim G G1 \<Longrightarrow> sim G1 G2 \<Longrightarrow> sim G G2"
  by (simp add: sim_def)

lemma sum_list_getitem:
  "sum_list (map es_edgeCount (ca_items (snd (ca_getitem EdgeSlice A i)))) = sum_list (map es_edgeCount (ca_items A))"
  by (simp add: ca_getitem_def Let_def EdgeSlice_def comp_def)

lemma E_getitem_ok:
  assumes "E_ok G"
  shows "\<exists>G'. E_getitem G i = ok (slice_view G i, G') \<and> sim G G' \<and> isDefined (E G') i
            \<and> slice_view G' = slice_view G"
proof -
  have idx: "es_index (ca_items (E G) ! nat (i - ca_base (E G))) = i" if "isDefined (E G) i"
    using assms that by (auto simp: E_ok_def slice_view_def ca_view_def dest: spec[where x=i])
  let ?G' = "G\<lparr>E := snd (ca_getitem EdgeSlice (E G) i)\<rparr>"
  have "E_getitem G i = ok (slice_view G i, ?G')"
    using idx by (auto simp: E_getitem_def slice_view_def ca_getitem_fst[symmetric] split: prod.splits)
  moreover have "sim G ?G'"
    using assms
    by (auto simp: sim_def E_ok_def slice_view_def lists_at_def fun_eq_iff ca_view_getitem
                  ca_getitem_defined_mono slice_total_def sum_list_getitem)
  moreover have "isDefined (E ?G') i"
    by (simp add: ca_getitem_defined)
  moreover have "slice_view ?G' = slice_view G"
    by (simp add: fun_eq_iff slice_view_def ca_view_getitem)
  ultimately show ?thesis by blast
qed

lemma E_getitem_okE:
  assumes "E_getitem G i = ok (S, G')" "E_ok G"
  shows "S = slice_view G i \<and> sim G G' \<and> isDefined (E G') i \<and> slice_view G' = slice_view G"
  using E_getitem_ok[OF assms(2), of i] assms(1) by auto

lemma lists_of_append_fresh:
  "map_of (edges S) v = None \<Longrightarrow> lists_of (S\<lparr>edges := edges S @ [(v, EdgeListOf)]\<rparr>) = lists_of S"
  by (auto simp: lists_of_def fun_eq_iff map_add_def split: option.splits)

lemma es_getitem_ok:
  assumes "es_index S = v_index v \<or> es_index S = v_index v - 1"
  shows "\<exists>S'. es_getitem S v = ok (lists_of S v, S') \<and> lists_of S' = lists_of S
            \<and> es_index S' = es_index S \<and> es_edgeCount S' = es_edgeCount S"
  using assms by (auto simp: es_getitem_def lists_of_append_fresh split: option.splits) (auto simp: lists_of_def)

lemma es_getitem_fail:
  assumes "es_index S \<noteq> v_index v" "es_index S \<noteq> v_index v - 1"
  shows "es_getitem S v = raise AssertionError"
  using assms by (simp add: es_getitem_def)

lemma slice_view_store:
  "isDefined (E G) i \<Longrightarrow> slice_view (G\<lparr>E := ca_store (E G) i S\<rparr>) j = (if j = i then S else slice_view G j)"
  by (simp add: slice_view_def ca_view_store)

lemma sum_list_update_int:
  "k < length xs \<Longrightarrow> sum_list (xs[k := x]) = sum_list xs - xs ! k + (x::int)"
  by (induction xs arbitrary: k) (auto split: nat.splits)

lemma sum_list_store:
  assumes "isDefined A i"
  shows "sum_list (map es_edgeCount (ca_items (ca_store A i S)))
       = sum_list (map es_edgeCount (ca_items A)) - es_edgeCount (ca_view EdgeSlice A i) + es_edgeCount S"
proof -
  let ?k = "nat (i - ca_base A)"
  have k: "?k < length (ca_items A)" using assms by (auto simp: isDefined_def)
  have "sum_list (map es_edgeCount ((ca_items A)[?k := S]))
      = sum_list (map es_edgeCount (ca_items A)) - es_edgeCount (ca_items A ! ?k) + es_edgeCount S"
    using k by (simp add: sum_list_update_int map_update)
  then show ?thesis using assms by (simp add: ca_store_def ca_view_def)
qed

lemma slice_total_store:
  "isDefined (E G) i \<Longrightarrow> slice_total (G\<lparr>E := ca_store (E G) i S\<rparr>)
     = slice_total G - es_edgeCount (slice_view G i) + es_edgeCount S"
  by (simp add: slice_total_def slice_view_def sum_list_store)

lemma E_at_ok:
  assumes "E_ok G" "i = v_index v \<or> i = v_index v - 1"
  shows "\<exists>G'. E_at G i v = ok (lists_at G i v, G') \<and> sim G G' \<and> isDefined (E G') i"
proof -
  from E_getitem_ok[OF assms(1), of i] obtain G1 where
    g1: "E_getitem G i = ok (slice_view G i, G1)" "sim G G1" "isDefined (E G1) i"
        "slice_view G1 = slice_view G" by blast
  have idx: "es_index (slice_view G i) = i" using assms(1) by (simp add: E_ok_def)
  from es_getitem_ok[of "slice_view G i" v] assms(2) idx obtain S' where
    s': "es_getitem (slice_view G i) v = ok (lists_of (slice_view G i) v, S')"
        "lists_of S' = lists_of (slice_view G i)" "es_index S' = i"
        "es_edgeCount S' = es_edgeCount (slice_view G i)" by auto
  let ?G' = "G1\<lparr>E := ca_store (E G1) i S'\<rparr>"
  have sv: "slice_view G1 i = slice_view G i"
    using g1(4) by simp
  have "E_at G i v = ok (lists_at G i v, ?G')"
    using g1(1) s'(1) by (simp add: E_at_def lists_at_def)
  moreover have "sim G1 ?G'"
    using g1(2,3) s'(2,3,4) sv
    by (auto simp: sim_def E_ok_def slice_view_store lists_at_def fun_eq_iff slice_total_store)
  moreover have "isDefined (E ?G') i" using g1(3) by simp
  ultimately show ?thesis using sim_trans[OF g1(2)] by blast
qed

subsection \<open>hasEdge\<close>

lemma lists_of_update:
  "lists_of (S\<lparr>edges := AList.update v l (edges S)\<rparr>) w = (if w = v then l else lists_of S w)"
  by (simp add: lists_of_def update_conv)

lemma E_store_view:
  assumes "isDefined (E G) i" "E_ok G"
  shows "lists_at (E_store G i v l) j w = (if j = i \<and> w = v then l else lists_at G j w)"
    and "es_edgeCount (slice_view (E_store G i v l) j) = es_edgeCount (slice_view G j)"
    and "E_ok (E_store G i v l)"
    and "isDefined (E (E_store G i v l)) j = isDefined (E G) j"
    and "slice_total (E_store G i v l) = slice_total G"
    and "edgeCount (E_store G i v l) = edgeCount G" and "V (E_store G i v l) = V G"
    and "cntRemovedDisjointEdge (E_store G i v l) = cntRemovedDisjointEdge G"
    and "cntPrunedWalk (E_store G i v l) = cntPrunedWalk G"
proof -
  have S: "ca_items (E G) ! nat (i - ca_base (E G)) = slice_view G i"
    using assms(1) by (simp add: slice_view_def ca_view_def)
  show "lists_at (E_store G i v l) j w = (if j = i \<and> w = v then l else lists_at G j w)"
    using assms(1) by (simp add: E_store_def Let_def S lists_at_def slice_view_store lists_of_update)
  show "es_edgeCount (slice_view (E_store G i v l) j) = es_edgeCount (slice_view G j)"
    using assms(1) by (simp add: E_store_def Let_def S slice_view_store)
  show "E_ok (E_store G i v l)"
    using assms by (simp add: E_store_def Let_def S E_ok_def slice_view_store)
  show "isDefined (E (E_store G i v l)) j = isDefined (E G) j"
    by (simp add: E_store_def Let_def)
  show "slice_total (E_store G i v l) = slice_total G"
    using assms(1) by (simp add: E_store_def Let_def S slice_total_store)
qed (simp_all add: E_store_def Let_def)

definition has :: "graph \<Rightarrow> edge \<Rightarrow> bool" where
  "has G e \<longleftrightarrow> (let (u, v) = e; i = min (v_index u) (v_index v)
     in v \<in> set (right_outgoing (lists_at G i u)) \<or> u \<in> set (right_incoming (lists_at G i v)))"

lemma sim_has: "sim G G' \<Longrightarrow> has G' e = has G e"
  by (simp add: sim_def has_def)

lemma sim_E_ok: "sim G G' \<Longrightarrow> E_ok G'"
  by (simp add: sim_def)

lemma E_at_okE:
  assumes "E_at G i v = ok (l, G')" "E_ok G"
  shows "l = lists_at G i v \<and> sim G G' \<and> isDefined (E G') i \<and> (i = v_index v \<or> i = v_index v - 1)"
proof (cases "i = v_index v \<or> i = v_index v - 1")
  case True
  from E_at_ok[OF assms(2) True] assms(1) show ?thesis using True by auto
next
  case False
  from E_getitem_ok[OF assms(2), of i] obtain G1 where
    g1: "E_getitem G i = ok (slice_view G i, G1)" by blast
  have "es_index (slice_view G i) = i" using assms(2) by (simp add: E_ok_def)
  with False have "es_getitem (slice_view G i) v = raise AssertionError"
    by (simp add: es_getitem_fail)
  with g1 have "E_at G i v = raise AssertionError" by (simp add: E_at_def)
  with assms(1) show ?thesis by simp
qed

lemma E_at_fail:
  assumes "E_ok G" "i \<noteq> v_index v" "i \<noteq> v_index v - 1"
  shows "E_at G i v = raise AssertionError"
proof -
  from E_getitem_ok[OF assms(1), of i] obtain G1 where
    g1: "E_getitem G i = ok (slice_view G i, G1)" by blast
  have "es_index (slice_view G i) = i" using assms(1) by (simp add: E_ok_def)
  with assms have "es_getitem (slice_view G i) v = raise AssertionError"
    by (simp add: es_getitem_fail)
  with g1 show ?thesis by (simp add: E_at_def)
qed

lemma hasEdge_okE:
  assumes "hasEdge G e = ok (b, G')" "E_ok G"
  shows "b = has G e \<and> sim G G'"
proof -
  obtain u v where e: "e = (u, v)" by (cases e)
  let ?i = "min (v_index u) (v_index v)"
  from assms(1) obtain lu G1 where
    1: "E_at G ?i u = ok (lu, G1)"
    and 2: "(if v \<in> set (right_outgoing lu) then ok (True, G1)
             else bindR (E_at G1 ?i v) (\<lambda>(lv, G2).
               if u \<in> set (right_incoming lv) then ok (True, G2) else ok (False, G2))) = ok (b, G')"
    by (auto simp: hasEdge_def e Let_def bindR_eq_ok)
  from E_at_okE[OF 1 assms(2)] have lu: "lu = lists_at G ?i u" and s1: "sim G G1" by auto
  show ?thesis
  proof (cases "v \<in> set (right_outgoing lu)")
    case True
    with 2 lu s1 show ?thesis by (auto simp: has_def e Let_def)
  next
    case False
    with 2 obtain lv G2 where 3: "E_at G1 ?i v = ok (lv, G2)"
      and 4: "b = (u \<in> set (right_incoming lv))" "G' = G2"
      by (auto simp: bindR_eq_ok split: if_splits)
    from E_at_okE[OF 3 sim_E_ok[OF s1]] have "lv = lists_at G1 ?i v" "sim G1 G2" by auto
    with s1 4 False lu show ?thesis
      by (auto simp: has_def e Let_def sim_def)
  qed
qed

lemma hasEdge_ok:
  assumes "E_ok G" "abs (v_index u - v_index v) \<le> 1"
  shows "\<exists>G'. hasEdge G (u, v) = ok (has G (u, v), G') \<and> sim G G'"
proof -
  let ?i = "min (v_index u) (v_index v)"
  have iu: "?i = v_index u \<or> ?i = v_index u - 1" and iv: "?i = v_index v \<or> ?i = v_index v - 1"
    using assms(2) by auto
  from E_at_ok[OF assms(1) iu] obtain G1 where
    1: "E_at G ?i u = ok (lists_at G ?i u, G1)" "sim G G1" by blast
  from E_at_ok[OF sim_E_ok[OF 1(2)] iv] obtain G2 where
    2: "E_at G1 ?i v = ok (lists_at G1 ?i v, G2)" "sim G1 G2" by blast
  have "\<exists>b G'. hasEdge G (u, v) = ok (b, G')"
    using 1 2 by (auto simp: hasEdge_def Let_def)
  then obtain b G' where "hasEdge G (u, v) = ok (b, G')" by blast
  with hasEdge_okE[OF this assms(1)] show ?thesis by auto
qed

lemma hasEdge_fail:
  assumes "E_ok G" "abs (v_index u - v_index v) > 1" "\<not> has G (u, v)"
  shows "hasEdge G (u, v) = raise AssertionError"
proof -
  let ?i = "min (v_index u) (v_index v)"
  show ?thesis
  proof (cases "v_index u < v_index v")
    case True
    then have iu: "?i = v_index u \<or> ?i = v_index u - 1" by auto
    from E_at_ok[OF assms(1) iu] obtain G1 where
      1: "E_at G ?i u = ok (lists_at G ?i u, G1)" "sim G G1" by blast
    have "E_at G1 ?i v = raise AssertionError"
      using True assms(2) by (intro E_at_fail sim_E_ok[OF 1(2)]) auto
    with 1 assms(3) show ?thesis by (auto simp: hasEdge_def Let_def has_def)
  next
    case False
    have "E_at G ?i u = raise AssertionError"
      using False assms(2) by (intro E_at_fail assms(1)) auto
    then show ?thesis by (simp add: hasEdge_def Let_def)
  qed
qed

subsection \<open>Changing an edge slice in place\<close>

definition same_rest :: "graph \<Rightarrow> graph \<Rightarrow> bool" where
  "same_rest G G' \<longleftrightarrow> (\<forall>j. isDefined (E G) j \<longrightarrow> isDefined (E G') j)
     \<and> V G' = V G \<and> cntRemovedDisjointEdge G' = cntRemovedDisjointEdge G \<and> cntPrunedWalk G' = cntPrunedWalk G"

definition same_counts :: "graph \<Rightarrow> graph \<Rightarrow> bool" where
  "same_counts G G' \<longleftrightarrow> (\<forall>j. es_edgeCount (slice_view G' j) = es_edgeCount (slice_view G j))
     \<and> slice_total G' = slice_total G \<and> edgeCount G' = edgeCount G"

lemma sim_alt: "sim G G' \<longleftrightarrow> E_ok G' \<and> lists_at G' = lists_at G \<and> same_counts G G' \<and> same_rest G G'"
  by (auto simp: sim_def same_counts_def same_rest_def)

lemma same_rest_trans: "same_rest G G1 \<Longrightarrow> same_rest G1 G2 \<Longrightarrow> same_rest G G2"
  by (simp add: same_rest_def)

lemma same_counts_trans: "same_counts G G1 \<Longrightarrow> same_counts G1 G2 \<Longrightarrow> same_counts G G2"
  by (simp add: same_counts_def)

lemma E_at_store:
  assumes "E_at G i w = ok (l, G1)" "E_ok G"
  shows "E_ok (E_store G1 i w l')"
    and "lists_at (E_store G1 i w l') = (\<lambda>j x. if j = i \<and> x = w then l' else lists_at G j x)"
    and "same_counts G (E_store G1 i w l')" and "same_rest G (E_store G1 i w l')"
    and "l = lists_at G i w" and "i = v_index w \<or> i = v_index w - 1"
proof -
  from E_at_okE[OF assms] have 1: "l = lists_at G i w" "sim G G1" "isDefined (E G1) i"
    "i = v_index w \<or> i = v_index w - 1" by auto
  note st = E_store_view[OF 1(3) sim_E_ok[OF 1(2)], of w l']
  show "E_ok (E_store G1 i w l')" by (rule st)
  show "lists_at (E_store G1 i w l') = (\<lambda>j x. if j = i \<and> x = w then l' else lists_at G j x)"
    using 1(2) by (simp add: fun_eq_iff st sim_def)
  show "same_counts G (E_store G1 i w l')"
    using 1(2) by (simp add: same_counts_def st sim_def)
  show "same_rest G (E_store G1 i w l')"
    using 1(2) by (simp add: same_rest_def st sim_def)
  show "l = lists_at G i w" by fact
  show "i = v_index w \<or> i = v_index w - 1" by fact
qed

lemma E_count_store:
  fixes c :: int
  assumes "E_getitem G i = ok (S, G1)" "E_ok G"
  defines "G' \<equiv> G1\<lparr>E := ca_store (E G1) i (S\<lparr>es_edgeCount := c\<rparr>)\<rparr>"
  shows "E_ok G'" and "lists_at G' = lists_at G" and "same_rest G G'"
    and "es_edgeCount (slice_view G' j) = (if j = i then c else es_edgeCount (slice_view G j))"
    and "slice_total G' = slice_total G - es_edgeCount (slice_view G i) + c"
    and "edgeCount G' = edgeCount G"
proof -
  from E_getitem_okE[OF assms(1,2)] have 1: "S = slice_view G i" "sim G G1" "isDefined (E G1) i"
    "slice_view G1 = slice_view G" by auto
  have sv: "slice_view G' j = (if j = i then S\<lparr>es_edgeCount := c\<rparr> else slice_view G j)" for j
    using 1 by (simp add: G'_def slice_view_store)
  show "E_ok G'" using assms(2) 1(1) by (simp add: E_ok_def sv)
  show "lists_at G' = lists_at G" using 1(1) by (simp add: fun_eq_iff lists_at_def sv lists_of_def)
  show "same_rest G G'" using 1(2) by (simp add: same_rest_def G'_def sim_def)
  show "es_edgeCount (slice_view G' j) = (if j = i then c else es_edgeCount (slice_view G j))"
    by (simp add: sv)
  show "slice_total G' = slice_total G - es_edgeCount (slice_view G i) + c"
    using 1 by (simp add: G'_def slice_total_store sim_def)
  show "edgeCount G' = edgeCount G" using 1(2) by (simp add: G'_def sim_def)
qed

subsection \<open>The vertex axis\<close>

definition tiers_view :: "vaxis \<Rightarrow> int \<Rightarrow> tierarray" where
  "tiers_view A i = ca_view (\<lambda>j. []) A i"

definition sd_view :: "vaxis \<Rightarrow> int \<Rightarrow> nat \<Rightarrow> statedict" where
  "sd_view A i t = (let ta = tiers_view A i in if t < length ta then ta ! t else [])"

definition tc_view :: "vaxis \<Rightarrow> int \<Rightarrow> nat \<Rightarrow> state \<Rightarrow> symbol \<Rightarrow> vertex set option" where
  "tc_view A i t q s = (case map_of (sd_view A i t) q of None \<Rightarrow> None | Some syd \<Rightarrow> map_of syd s)"

definition floor_vertex :: "int \<Rightarrow> state \<Rightarrow> symbol \<Rightarrow> vertex" where
  "floor_vertex i q s = \<lparr>v_index = i, v_tier = 0, v_state = q, v_symbol = s, v_pred = None\<rparr>"

definition registered :: "vaxis \<Rightarrow> int \<Rightarrow> nat \<Rightarrow> state \<Rightarrow> symbol \<Rightarrow> vertex set" where
  "registered A i t q s = (case tc_view A i t q s of Some T \<Rightarrow> T
     | None \<Rightarrow> if t = 0 then {floor_vertex i q s} else {})"

definition states_at :: "vaxis \<Rightarrow> int \<Rightarrow> nat \<Rightarrow> state list" where
  "states_at A i t = map fst (sd_view A i t)"

lemma sd_view_extend:
  "(let ta = tier_extend ta0 t in if t' < length ta then ta ! t' else [])
   = (if t' < length ta0 then ta0 ! t' else [])"
  by (auto simp: tier_extend_def Let_def nth_append)

lemma tiers_view_store:
  "isDefined A i \<Longrightarrow> tiers_view (ca_store A i x) j = (if j = i then x else tiers_view A j)"
  by (simp add: tiers_view_def ca_view_store)

lemma sd_view_store:
  assumes "isDefined A i" "t < length ta"
  shows "sd_view (ca_store A i (ta[t := sd])) i' t'
       = (if i' = i then (if t' = t then sd else if t' < length ta then ta ! t' else []) else sd_view A i' t')"
  using assms by (auto simp: sd_view_def tiers_view_store Let_def)

lemma map_fst_update:
  "map fst (AList.update k v al) = (if k \<in> fst ` set al then map fst al else map fst al @ [k])"
  by (induction al) auto

lemma V_getitem_okE:
  assumes "V_getitem M A i t q s = ok (T, A')"
  shows "T = registered A i t q s"
    and "tc_view A' i' t' q' s' = (if i' = i \<and> t' = t \<and> q' = q \<and> s' = s then Some T else tc_view A i' t' q' s')"
    and "isDefined A' i" and "t < length (tiers_view A' i)"
    and "states_at A' i' t' = (if i' = i \<and> t' = t \<and> q \<notin> set (states_at A i t) then states_at A i t @ [q]
                                else states_at A i' t')"
    and "tc_view A i t q s \<noteq> None \<or> (s \<in> symbols M \<and> delta M q s \<noteq> None)"
proof -
  define A1 where "A1 = snd (ca_getitem (\<lambda>j. []) A i)"
  define ta0 where "ta0 = tiers_view A i"
  define ta where "ta = tier_extend ta0 t"
  define sd0 where "sd0 = ta ! t"
  define sd where "sd = (case map_of sd0 q of None \<Rightarrow> sd0 @ [(q, [])] | Some y \<Rightarrow> sd0)"
  define syd where "syd = (case map_of sd0 q of None \<Rightarrow> [] | Some y \<Rightarrow> y)"
  have g: "ca_getitem (\<lambda>j. []) A i = (ta0, A1)"
    by (simp add: A1_def ta0_def tiers_view_def ca_getitem_fst[symmetric])
  have d1: "isDefined A1 i" by (simp add: A1_def ca_getitem_defined)
  have v1: "tiers_view A1 j = tiers_view A j" for j
    by (simp add: A1_def tiers_view_def ca_view_getitem)
  have lt: "t < length ta" by (simp add: ta_def tier_extend_def)
  have sd0: "sd0 = sd_view A i t"
    by (auto simp: sd0_def ta_def sd_view_def ta0_def[symmetric] tier_extend_def nth_append Let_def)
  have ta_nth: "(if t' < length ta then ta ! t' else []) = sd_view A i t'" for t'
    by (auto simp: ta_def sd_view_def ta0_def[symmetric] tier_extend_def nth_append Let_def)
  have tc0: "tc_view A i t q s = map_of syd s"
    by (auto simp: tc_view_def sd0[symmetric] syd_def split: option.splits)
  have unf: "V_getitem M A i t q s =
     (case map_of syd s of
           Some T \<Rightarrow> ok (T, ca_store A1 i (ta[t := sd]))
         | None \<Rightarrow>
             if s \<in> symbols M then
               bindR (TransitionCase M i t q s)
                 (\<lambda>T. ok (T, ca_store A1 i (ta[t := AList.update q (syd @ [(s, T)]) sd])))
             else raise AssertionError)"
    unfolding V_getitem_def g Let_def syd_def sd_def sd0_def ta_def by simp
  have in_keys: "q \<in> fst ` set sd0 \<longleftrightarrow> map_of sd0 q \<noteq> None"
    by (simp add: map_of_eq_None_iff)
  have keys_sd: "map fst sd = (if q \<in> set (states_at A i t) then states_at A i t else states_at A i t @ [q])"
    using in_keys by (auto simp: sd_def states_at_def sd0[symmetric] split: option.splits)
  have q_in_sd: "q \<in> fst ` set sd"
    using in_keys by (auto simp: sd_def split: option.splits)
  have mo_sd: "map_of sd q' = (if q' = q then Some syd else map_of sd0 q')" for q'
    by (auto simp: sd_def syd_def map_add_def split: option.splits)
  have sdv: "sd_view (ca_store A1 i (ta[t := x])) i' t' = (if i' = i \<and> t' = t then x else sd_view A i' t')" for x i' t'
  proof -
    have "sd_view A1 i' t' = sd_view A i' t'" by (simp add: sd_view_def v1)
    then show ?thesis using ta_nth[of t'] by (simp add: sd_view_store[OF d1 lt])
  qed
  have tc: "tc_view A i' t' q' s' = (case map_of (sd_view A i' t') q' of None \<Rightarrow> None | Some syd \<Rightarrow> map_of syd s')" for i' t' q' s'
    by (simp add: tc_view_def)
  have tcq: "tc_view A i t q s' = map_of syd s'" for s'
    by (auto simp: tc_view_def sd0[symmetric] syd_def split: option.splits)
  have defd: "isDefined (ca_store A1 i x) i" "t < length (tiers_view (ca_store A1 i (ta[t := y])) i)" for x y
    using d1 lt by (simp_all add: tiers_view_store)
  let ?goal = "T = registered A i t q s \<and>
    tc_view A' i' t' q' s' =
    (if i' = i \<and> t' = t \<and> q' = q \<and> s' = s then Some T
     else tc_view A i' t' q' s') \<and>
    isDefined A' i \<and>
    t < length (tiers_view A' i) \<and>
    states_at A' i' t' =
    (if i' = i \<and> t' = t \<and> q \<notin> set (states_at A i t)
     then states_at A i t @ [q] else states_at A i' t') \<and>
    (tc_view A i t q s \<noteq> None \<or> s \<in> symbols M \<and> delta M q s \<noteq> None)"
  have main: ?goal
  proof (cases "map_of syd s")
    case (Some T0)
    with assms unf have eq: "T = T0" "A' = ca_store A1 i (ta[t := sd])" by auto
    have tcv: "tc_view A' i' t' q' s' = (if i' = i \<and> t' = t \<and> q' = q \<and> s' = s then Some T else tc_view A i' t' q' s')"
    proof (cases "i' = i \<and> t' = t")
      case True
      then have "tc_view A' i' t' q' s' = (case map_of sd q' of None \<Rightarrow> None | Some y \<Rightarrow> map_of y s')"
        by (simp add: tc_view_def eq sdv)
      also have "\<dots> = (if q' = q then map_of syd s' else tc_view A i t q' s')"
        by (simp add: mo_sd tc_view_def sd0)
      finally show ?thesis using True Some tcq[of s'] eq by auto
    next
      case False
      then show ?thesis by (auto simp: tc_view_def eq sdv)
    qed
    have sts: "states_at A' i' t' = (if i' = i \<and> t' = t \<and> q \<notin> set (states_at A i t) then states_at A i t @ [q]
                                else states_at A i' t')"
      using keys_sd by (auto simp: eq states_at_def sdv)
    show ?thesis
      using tcv sts Some tc0 defd
      by (simp add: registered_def eq)
  next
    case None
    with assms unf obtain r where sym: "s \<in> symbols M" and dl: "delta M q s = Some r"
      and T: "T = (if t = 0 then {floor_vertex i q s} else {})"
      and A': "A' = ca_store A1 i (ta[t := AList.update q (syd @ [(s, T)]) sd])"
      by (auto simp: TransitionCase_def bindR_eq_ok floor_vertex_def split: if_splits option.splits)
    have mo: "map_of (AList.update q (syd @ [(s, T)]) sd) q' = (if q' = q then Some (syd @ [(s, T)]) else map_of sd0 q')" for q'
      by (simp add: update_conv mo_sd)
    have tcv: "tc_view A' i' t' q' s' = (if i' = i \<and> t' = t \<and> q' = q \<and> s' = s then Some T else tc_view A i' t' q' s')"
    proof (cases "i' = i \<and> t' = t")
      case True
      then have "tc_view A' i' t' q' s' = (case map_of (AList.update q (syd @ [(s, T)]) sd) q' of None \<Rightarrow> None | Some y \<Rightarrow> map_of y s')"
        by (simp add: tc_view_def A' sdv)
      also have "\<dots> = (if q' = q then map_of (syd @ [(s, T)]) s' else tc_view A i t q' s')"
        by (simp add: mo tc_view_def sd0)
      finally show ?thesis using True None tcq[of s']
        by (auto simp: map_add_def split: option.splits)
    next
      case False
      then show ?thesis by (auto simp: tc_view_def A' sdv)
    qed
    have sts: "states_at A' i' t' = (if i' = i \<and> t' = t \<and> q \<notin> set (states_at A i t) then states_at A i t @ [q]
                                else states_at A i' t')"
      using keys_sd q_in_sd by (auto simp: A' states_at_def sdv map_fst_update)
    show ?thesis
      using tcv sts None tc0 defd sym dl
      by (simp add: registered_def A' T)
  qed
  show "T = registered A i t q s" "tc_view A' i' t' q' s' = (if i' = i \<and> t' = t \<and> q' = q \<and> s' = s then Some T else tc_view A i' t' q' s')"
    "isDefined A' i" "t < length (tiers_view A' i)"
    "states_at A' i' t' = (if i' = i \<and> t' = t \<and> q \<notin> set (states_at A i t) then states_at A i t @ [q]
                                else states_at A i' t')"
    "tc_view A i t q s \<noteq> None \<or> (s \<in> symbols M \<and> delta M q s \<noteq> None)"
    using main by blast+
qed

subsection \<open>addVertex\<close>

lemma V_getitem_ok:
  assumes "tc_view A i t q s \<noteq> None \<or> (s \<in> symbols M \<and> delta M q s \<noteq> None)"
  shows "\<exists>A'. V_getitem M A i t q s = ok (registered A i t q s, A')"
proof -
  define A1 where "A1 = snd (ca_getitem (\<lambda>j. []) A i)"
  define ta0 where "ta0 = tiers_view A i"
  define ta where "ta = tier_extend ta0 t"
  define sd0 where "sd0 = ta ! t"
  define sd where "sd = (case map_of sd0 q of None \<Rightarrow> sd0 @ [(q, [])] | Some y \<Rightarrow> sd0)"
  define syd where "syd = (case map_of sd0 q of None \<Rightarrow> [] | Some y \<Rightarrow> y)"
  have g: "ca_getitem (\<lambda>j. []) A i = (ta0, A1)"
    by (simp add: A1_def ta0_def tiers_view_def ca_getitem_fst[symmetric])
  have sd0: "sd0 = sd_view A i t"
    by (auto simp: sd0_def ta_def sd_view_def ta0_def[symmetric] tier_extend_def nth_append Let_def)
  have tc0: "tc_view A i t q s = map_of syd s"
    by (auto simp: tc_view_def sd0[symmetric] syd_def split: option.splits)
  have unf: "V_getitem M A i t q s =
     (case map_of syd s of
           Some T \<Rightarrow> ok (T, ca_store A1 i (ta[t := sd]))
         | None \<Rightarrow>
             if s \<in> symbols M then
               bindR (TransitionCase M i t q s)
                 (\<lambda>T. ok (T, ca_store A1 i (ta[t := AList.update q (syd @ [(s, T)]) sd])))
             else raise AssertionError)"
    unfolding V_getitem_def g Let_def syd_def sd_def sd0_def ta_def by simp
  have "\<exists>T A'. V_getitem M A i t q s = ok (T, A')"
    using assms unfolding unf tc0 by (auto simp: TransitionCase_def split: option.splits)
  then obtain T A' where r: "V_getitem M A i t q s = ok (T, A')" by blast
  from V_getitem_okE(1)[OF r] r show ?thesis by auto
qed

lemma V_getitem_not_None: "V_getitem M A i t q s \<noteq> None"
  by (auto simp: V_getitem_def Let_def TransitionCase_def bindR_def split: prod.splits option.splits)

lemma V_store_view:
  assumes "isDefined A i" "t < length (tiers_view A i)"
  shows "tc_view (V_store A i t q s T') i' t' q' s'
           = (if i' = i \<and> t' = t \<and> q' = q \<and> s' = s then Some T' else tc_view A i' t' q' s')"
    and "states_at (V_store A i t q s T') i' t'
           = (if i' = i \<and> t' = t \<and> q \<notin> set (states_at A i t) then states_at A i t @ [q]
              else states_at A i' t')"
proof -
  define ta where "ta = ca_items A ! nat (i - ca_base A)"
  define sd where "sd = ta ! t"
  define syd where "syd = (case map_of sd q of None \<Rightarrow> [] | Some y \<Rightarrow> y)"
  have ta: "ta = tiers_view A i" using assms(1) by (simp add: ta_def tiers_view_def ca_view_def)
  have lt: "t < length ta" using assms(2) ta by simp
  have sd: "sd = sd_view A i t" using lt by (simp add: sd_def sd_view_def ta[symmetric])
  have unf: "V_store A i t q s T' = ca_store A i (ta[t := AList.update q (AList.update s T' syd) sd])"
    unfolding V_store_def Let_def syd_def sd_def ta_def by simp
  have sdv: "sd_view (V_store A i t q s T') j u
      = (if j = i \<and> u = t then AList.update q (AList.update s T' syd) sd else sd_view A j u)" for j u
    using lt by (auto simp: unf sd_view_store[OF assms(1) lt]) (auto simp: sd_view_def ta[symmetric])
  have tcq: "tc_view A i t q s' = map_of syd s'" for s'
    by (auto simp: tc_view_def sd[symmetric] syd_def split: option.splits)
  show "tc_view (V_store A i t q s T') i' t' q' s'
           = (if i' = i \<and> t' = t \<and> q' = q \<and> s' = s then Some T' else tc_view A i' t' q' s')"
  proof (cases "i' = i \<and> t' = t")
    case True
    then have "tc_view (V_store A i t q s T') i' t' q' s'
        = (case map_of (AList.update q (AList.update s T' syd) sd) q' of None \<Rightarrow> None | Some y \<Rightarrow> map_of y s')"
      by (simp add: tc_view_def sdv)
    also have "\<dots> = (if q' = q then map_of (AList.update s T' syd) s' else tc_view A i t q' s')"
      by (simp add: update_conv tc_view_def sd)
    finally show ?thesis using True tcq[of s'] by (auto simp: update_conv)
  next
    case False
    then show ?thesis by (auto simp: tc_view_def sdv)
  qed
  have inq: "q \<in> fst ` set sd \<longleftrightarrow> q \<in> set (states_at A i t)"
    by (simp add: states_at_def sd)
  show "states_at (V_store A i t q s T') i' t'
           = (if i' = i \<and> t' = t \<and> q \<notin> set (states_at A i t) then states_at A i t @ [q]
              else states_at A i' t')"
    using inq by (auto simp: states_at_def[of "V_store A i t q s T'"] sdv map_fst_update)
                 (auto simp: states_at_def sd)
qed

definition reg :: "heap \<Rightarrow> graph \<Rightarrow> int \<Rightarrow> nat \<Rightarrow> state \<Rightarrow> symbol \<Rightarrow> vertex set" where
  "reg h G = registered (cells h (V G))"

lemma registered_cong:
  "(\<And>i t q s. tc_view A' i t q s = tc_view A i t q s) \<Longrightarrow> registered A' = registered A"
  by (simp add: registered_def fun_eq_iff)

lemma addVertex_okE:
  assumes "addVertex M h G v = ok h'"
  shows "fresh h' = fresh h" and "\<And>a. a \<noteq> V G \<Longrightarrow> cells h' a = cells h a"
    and "registered (cells h' (V G)) i t q s
         = (if i = v_index v \<and> t = v_tier v \<and> q = v_state v \<and> s = v_symbol v
            then insert v (registered (cells h (V G)) i t q s) else registered (cells h (V G)) i t q s)"
    and "set (states_at (cells h' (V G)) i t)
         = (if i = v_index v \<and> t = v_tier v then insert (v_state v) (set (states_at (cells h (V G)) i t))
            else set (states_at (cells h (V G)) i t))"
proof -
  let ?A = "cells h (V G)"
  from assms obtain T A1 where
    1: "V_getitem M ?A (v_index v) (v_tier v) (v_state v) (v_symbol v) = ok (T, A1)"
    and h': "h' = h\<lparr>cells := (cells h)(V G := V_store A1 (v_index v) (v_tier v) (v_state v) (v_symbol v) (insert v T))\<rparr>"
    by (auto simp: addVertex_def bindR_eq_ok)
  note g = V_getitem_okE[OF 1]
  note st = V_store_view[OF g(3) g(4)]
  show "fresh h' = fresh h" by (simp add: h')
  show "\<And>a. a \<noteq> V G \<Longrightarrow> cells h' a = cells h a" by (simp add: h')
  show "registered (cells h' (V G)) i t q s
         = (if i = v_index v \<and> t = v_tier v \<and> q = v_state v \<and> s = v_symbol v
            then insert v (registered (cells h (V G)) i t q s) else registered (cells h (V G)) i t q s)"
  proof (cases "i = v_index v \<and> t = v_tier v \<and> q = v_state v \<and> s = v_symbol v")
    case True
    then have "tc_view (cells h' (V G)) i t q s = Some (insert v T)"
      by (simp add: h' st)
    then show ?thesis using True g(1) by (simp add: registered_def[of "cells h' (V G)"])
  next
    case False
    then have "tc_view (cells h' (V G)) i t q s = tc_view (cells h (V G)) i t q s"
      by (auto simp: h' st g(2))
    then show ?thesis using False by (auto simp: registered_def)
  qed
  show "set (states_at (cells h' (V G)) i t)
         = (if i = v_index v \<and> t = v_tier v then insert (v_state v) (set (states_at (cells h (V G)) i t))
            else set (states_at (cells h (V G)) i t))"
    by (auto simp: h' st g(5))
qed

definition vertex_ok :: "env \<Rightarrow> vertex \<Rightarrow> bool" where
  "vertex_ok M v \<longleftrightarrow> v_symbol v \<in> symbols M \<and> delta M (v_state v) (v_symbol v) \<noteq> None"

lemma addVertex_ok:
  assumes "vertex_ok M v"
  shows "\<exists>h'. addVertex M h G v = ok h'"
  using V_getitem_ok[of "cells h (V G)" "v_index v" "v_tier v" "v_state v" "v_symbol v" M] assms
  by (auto simp: addVertex_def vertex_ok_def)

subsection \<open>addEdge\<close>

definition add_lists :: "(int \<Rightarrow> vertex \<Rightarrow> edgelistof) \<Rightarrow> edge \<Rightarrow> int \<Rightarrow> vertex \<Rightarrow> edgelistof" where
  "add_lists L e = (let (u, v) = e in
     if v_index u < v_index v
     then (\<lambda>j w. if j = v_index u \<and> w = v then (L j w)\<lparr>left_incoming := left_incoming (L j w) @ [u]\<rparr>
                  else if j = v_index u \<and> w = u then (L j w)\<lparr>right_outgoing := right_outgoing (L j w) @ [v]\<rparr>
                  else L j w)
     else (\<lambda>j w. if j = v_index v \<and> w = v then (L j w)\<lparr>right_incoming := right_incoming (L j w) @ [u]\<rparr>
                  else if j = v_index v \<and> w = u then (L j w)\<lparr>left_outgoing := left_outgoing (L j w) @ [v]\<rparr>
                  else L j w))"

lemma append_two_entries:
  fixes f g :: "edgelistof \<Rightarrow> edgelistof"
  assumes "E_ok G" "E_at G i u = ok (lu, G3)" "E_at (E_store G3 i u (f lu)) i v = ok (lv, G5)" "u \<noteq> v"
    and "G6 = E_store G5 i v (g lv)"
  shows "E_ok G6 \<and> same_counts G G6 \<and> same_rest G G6
    \<and> lists_at G6 = (\<lambda>j w. if j = i \<and> w = v then g (lists_at G i v)
                              else if j = i \<and> w = u then f (lists_at G i u) else lists_at G j w)
    \<and> (i = v_index u \<or> i = v_index u - 1) \<and> (i = v_index v \<or> i = v_index v - 1)"
proof -
  note a = E_at_store[OF assms(2) assms(1)]
  note b = E_at_store[OF assms(3) a(1)]
  have "lists_at G6 = (\<lambda>j w. if j = i \<and> w = v then g (lists_at G i v)
                              else if j = i \<and> w = u then f (lists_at G i u) else lists_at G j w)"
    unfolding assms(5) using assms(4) by (auto simp: b(2) b(5) a(2) a(5) fun_eq_iff)
  moreover have "same_counts G G6" unfolding assms(5) by (rule same_counts_trans[OF a(3) b(3)])
  moreover have "same_rest G G6" unfolding assms(5) by (rule same_rest_trans[OF a(4) b(4)])
  moreover have "E_ok G6" unfolding assms(5) by (rule b)
  ultimately show ?thesis using a(6) b(6) by blast
qed

lemma edgeCount_update_view:
  "E_ok (G\<lparr>edgeCount := c\<rparr>) = E_ok G"
  "lists_at (G\<lparr>edgeCount := c\<rparr>) = lists_at G"
  "slice_view (G\<lparr>edgeCount := c\<rparr>) = slice_view G"
  "slice_total (G\<lparr>edgeCount := c\<rparr>) = slice_total G"
  "same_rest G0 (G\<lparr>edgeCount := c\<rparr>) = same_rest G0 G"
  by (simp_all add: E_ok_def lists_at_def slice_view_def slice_total_def same_rest_def fun_eq_iff)

lemma addEdge_okE:
  assumes "addEdge M h G (u, v) = ok (h', G')" "E_ok G"
  shows "has G (u, v) \<Longrightarrow> sim G G' \<and> h' = h"
    and "\<not> has G (u, v) \<Longrightarrow>
           abs (v_index u - v_index v) = 1 \<and> E_ok G' \<and> same_rest G G'
         \<and> lists_at G' = add_lists (lists_at G) (u, v)
         \<and> (\<forall>j. es_edgeCount (slice_view G' j)
                = (if j = min (v_index u) (v_index v) then es_edgeCount (slice_view G j) + 1
                   else es_edgeCount (slice_view G j)))
         \<and> slice_total G' = slice_total G + 1 \<and> edgeCount G' = edgeCount G + 1
         \<and> (\<exists>h1. addVertex M h G u = ok h1 \<and> addVertex M h1 G v = ok h')"
proof -
  let ?i = "min (v_index u) (v_index v)"
  from assms(1) obtain S G1 where
    1: "E_getitem G ?i = ok (S, G1)" and ne: "v_index u \<noteq> v_index v"
    and 2: "bindR (hasEdge G1 (u, v)) (\<lambda>(b, G2).
        if b then ok (h, G2)
        else bindR (addVertex M h G2 u) (\<lambda>h1.
             bindR (addVertex M h1 G2 v) (\<lambda>h2.
             bindR (if v_index u < v_index v
                    then bindR (E_at G2 (v_index u) u) (\<lambda>(lu, G3).
                         let G4 = E_store G3 (v_index u) u (lu\<lparr>right_outgoing := right_outgoing lu @ [v]\<rparr>) in
                         bindR (E_at G4 (v_index u) v) (\<lambda>(lv, G5).
                         ok (E_store G5 (v_index u) v (lv\<lparr>left_incoming := left_incoming lv @ [u]\<rparr>))))
                    else bindR (E_at G2 (v_index v) u) (\<lambda>(lu, G3).
                         let G4 = E_store G3 (v_index v) u (lu\<lparr>left_outgoing := left_outgoing lu @ [v]\<rparr>) in
                         bindR (E_at G4 (v_index v) v) (\<lambda>(lv, G5).
                         ok (E_store G5 (v_index v) v (lv\<lparr>right_incoming := right_incoming lv @ [u]\<rparr>)))))
               (\<lambda>G6.
             bindR (E_getitem G6 ?i) (\<lambda>(S6, G7).
             let G8 = G7\<lparr>E := ca_store (E G7) ?i (S6\<lparr>es_edgeCount := es_edgeCount S6 + 1\<rparr>)\<rparr>
             in ok (h2, G8\<lparr>edgeCount := edgeCount G8 + 1\<rparr>)))))) = ok (h', G')"
    by (auto simp: addEdge_def Let_def bindR_eq_ok split: if_splits)
  from E_getitem_okE[OF 1 assms(2)] have s1: "sim G G1" by simp
  from 2 obtain b G2 where 3: "hasEdge G1 (u, v) = ok (b, G2)"
    and 4: "(if b then ok (h, G2)
        else bindR (addVertex M h G2 u) (\<lambda>h1.
             bindR (addVertex M h1 G2 v) (\<lambda>h2.
             bindR (if v_index u < v_index v
                    then bindR (E_at G2 (v_index u) u) (\<lambda>(lu, G3).
                         let G4 = E_store G3 (v_index u) u (lu\<lparr>right_outgoing := right_outgoing lu @ [v]\<rparr>) in
                         bindR (E_at G4 (v_index u) v) (\<lambda>(lv, G5).
                         ok (E_store G5 (v_index u) v (lv\<lparr>left_incoming := left_incoming lv @ [u]\<rparr>))))
                    else bindR (E_at G2 (v_index v) u) (\<lambda>(lu, G3).
                         let G4 = E_store G3 (v_index v) u (lu\<lparr>left_outgoing := left_outgoing lu @ [v]\<rparr>) in
                         bindR (E_at G4 (v_index v) v) (\<lambda>(lv, G5).
                         ok (E_store G5 (v_index v) v (lv\<lparr>right_incoming := right_incoming lv @ [u]\<rparr>)))))
               (\<lambda>G6.
             bindR (E_getitem G6 ?i) (\<lambda>(S6, G7).
             let G8 = G7\<lparr>E := ca_store (E G7) ?i (S6\<lparr>es_edgeCount := es_edgeCount S6 + 1\<rparr>)\<rparr>
             in ok (h2, G8\<lparr>edgeCount := edgeCount G8 + 1\<rparr>)))))) = ok (h', G')"
    by (auto simp: bindR_eq_ok)
  from hasEdge_okE[OF 3 sim_E_ok[OF s1]] s1 have b: "b = has G (u, v)" and s2: "sim G G2"
    by (auto simp: sim_has intro: sim_trans)
  show "has G (u, v) \<Longrightarrow> sim G G' \<and> h' = h"
    using 4 b s2 by auto
  assume nh: "\<not> has G (u, v)"
  with 4 b obtain h1 G6 S6 G7 where
    5: "addVertex M h G2 u = ok h1" and 6: "addVertex M h1 G2 v = ok h'"
    and 7: "(if v_index u < v_index v
                    then bindR (E_at G2 (v_index u) u) (\<lambda>(lu, G3).
                         let G4 = E_store G3 (v_index u) u (lu\<lparr>right_outgoing := right_outgoing lu @ [v]\<rparr>) in
                         bindR (E_at G4 (v_index u) v) (\<lambda>(lv, G5).
                         ok (E_store G5 (v_index u) v (lv\<lparr>left_incoming := left_incoming lv @ [u]\<rparr>))))
                    else bindR (E_at G2 (v_index v) u) (\<lambda>(lu, G3).
                         let G4 = E_store G3 (v_index v) u (lu\<lparr>left_outgoing := left_outgoing lu @ [v]\<rparr>) in
                         bindR (E_at G4 (v_index v) v) (\<lambda>(lv, G5).
                         ok (E_store G5 (v_index v) v (lv\<lparr>right_incoming := right_incoming lv @ [u]\<rparr>))))) = ok G6"
    and 8: "E_getitem G6 ?i = ok (S6, G7)"
    and G': "G' = (G7\<lparr>E := ca_store (E G7) ?i (S6\<lparr>es_edgeCount := es_edgeCount S6 + 1\<rparr>)\<rparr>)
                  \<lparr>edgeCount := edgeCount (G7\<lparr>E := ca_store (E G7) ?i (S6\<lparr>es_edgeCount := es_edgeCount S6 + 1\<rparr>)\<rparr>) + 1\<rparr>"
    by (auto simp: bindR_eq_ok Let_def)
  have uv: "u \<noteq> v" using ne by auto
  have e2: "E_ok G2" by (rule sim_E_ok[OF s2])
  have VG: "V G2 = V G" using s2 by (simp add: sim_def)
  have av: "addVertex M h G u = ok h1" "addVertex M h1 G v = ok h'"
    using 5 6 VG by (simp_all add: addVertex_def)
  have 9: "E_ok G6 \<and> same_counts G2 G6 \<and> same_rest G2 G6
         \<and> lists_at G6 = add_lists (lists_at G2) (u, v) \<and> abs (v_index u - v_index v) = 1"
  proof (cases "v_index u < v_index v")
    case True
    with 7 obtain lu G3 lv G5 where
      a: "E_at G2 (v_index u) u = ok (lu, G3)"
      and c: "E_at (E_store G3 (v_index u) u (lu\<lparr>right_outgoing := right_outgoing lu @ [v]\<rparr>)) (v_index u) v = ok (lv, G5)"
      and d: "G6 = E_store G5 (v_index u) v (lv\<lparr>left_incoming := left_incoming lv @ [u]\<rparr>)"
      by (auto simp: bindR_eq_ok Let_def)
    note r = append_two_entries[where f = "\<lambda>l. l\<lparr>right_outgoing := right_outgoing l @ [v]\<rparr>"
               and g = "\<lambda>l. l\<lparr>left_incoming := left_incoming l @ [u]\<rparr>", OF e2 a c uv d]
    show ?thesis using r True by (auto simp: add_lists_def fun_eq_iff)
  next
    case False
    with 7 obtain lu G3 lv G5 where
      a: "E_at G2 (v_index v) u = ok (lu, G3)"
      and c: "E_at (E_store G3 (v_index v) u (lu\<lparr>left_outgoing := left_outgoing lu @ [v]\<rparr>)) (v_index v) v = ok (lv, G5)"
      and d: "G6 = E_store G5 (v_index v) v (lv\<lparr>right_incoming := right_incoming lv @ [u]\<rparr>)"
      by (auto simp: bindR_eq_ok Let_def)
    note r = append_two_entries[where f = "\<lambda>l. l\<lparr>left_outgoing := left_outgoing l @ [v]\<rparr>"
               and g = "\<lambda>l. l\<lparr>right_incoming := right_incoming l @ [u]\<rparr>", OF e2 a c uv d]
    show ?thesis using r False ne by (auto simp: add_lists_def fun_eq_iff)
  qed
  define G8 where "G8 = G7\<lparr>E := ca_store (E G7) ?i (S6\<lparr>es_edgeCount := es_edgeCount S6 + 1\<rparr>)\<rparr>"
  have e6: "E_ok G6" using 9 by simp
  note cs = E_count_store[OF 8 e6, where c = "es_edgeCount S6 + 1", folded G8_def]
  have G'8: "G' = G8\<lparr>edgeCount := edgeCount G8 + 1\<rparr>" by (simp add: G' G8_def)
  have S6: "S6 = slice_view G6 ?i" using E_getitem_okE[OF 8 e6] by simp
  have cnt: "es_edgeCount (slice_view G6 j) = es_edgeCount (slice_view G j)" for j
    using 9 s2 by (simp add: same_counts_def sim_def)
  have tot: "slice_total G6 = slice_total G" "edgeCount G6 = edgeCount G"
    using 9 s2 by (simp_all add: same_counts_def sim_def)
  have rest: "same_rest G G6"
    using 9 s2 by (auto simp: sim_alt intro: same_rest_trans)
  have la: "lists_at G6 = add_lists (lists_at G) (u, v)"
    using 9 s2 by (simp add: sim_def)
  have "E_ok G'" by (simp add: G'8 edgeCount_update_view cs(1))
  moreover have "same_rest G G'"
    by (simp add: G'8 edgeCount_update_view same_rest_trans[OF rest cs(3)])
  moreover have "lists_at G' = add_lists (lists_at G) (u, v)"
    by (simp add: G'8 edgeCount_update_view cs(2) la)
  moreover have "es_edgeCount (slice_view G' j)
                = (if j = ?i then es_edgeCount (slice_view G j) + 1 else es_edgeCount (slice_view G j))" for j
    by (simp add: G'8 edgeCount_update_view cs(4) S6 cnt)
  moreover have "slice_total G' = slice_total G + 1"
    by (simp add: G'8 edgeCount_update_view cs(5) S6 tot)
  moreover have "edgeCount G' = edgeCount G + 1"
    by (simp add: G'8 cs(6) tot)
  ultimately show "abs (v_index u - v_index v) = 1 \<and> E_ok G' \<and> same_rest G G'
         \<and> lists_at G' = add_lists (lists_at G) (u, v)
         \<and> (\<forall>j. es_edgeCount (slice_view G' j)
                = (if j = min (v_index u) (v_index v) then es_edgeCount (slice_view G j) + 1
                   else es_edgeCount (slice_view G j)))
         \<and> slice_total G' = slice_total G + 1 \<and> edgeCount G' = edgeCount G + 1
         \<and> (\<exists>h1. addVertex M h G u = ok h1 \<and> addVertex M h1 G v = ok h')"
    using 9 av by blast
qed

subsection \<open>When addEdge returns and when it raises\<close>

lemma addEdge_ok:
  assumes "E_ok G" "abs (v_index u - v_index v) = 1" "vertex_ok M u" "vertex_ok M v"
  shows "\<exists>h' G'. addEdge M h G (u, v) = ok (h', G')"
proof -
  let ?i = "min (v_index u) (v_index v)"
  from E_getitem_ok[OF assms(1), of ?i] obtain G1 where
    1: "E_getitem G ?i = ok (slice_view G ?i, G1)" "sim G G1" by blast
  have idx: "es_index (slice_view G ?i) = ?i" using assms(1) by (simp add: E_ok_def)
  from hasEdge_ok[OF sim_E_ok[OF 1(2)], of u v] assms(2) obtain G2 where
    2: "hasEdge G1 (u, v) = ok (has G1 (u, v), G2)" "sim G1 G2" by auto
  have e2: "E_ok G2" by (rule sim_E_ok[OF 2(2)])
  show ?thesis
  proof (cases "has G1 (u, v)")
    case True
    with 1 2 idx assms(2) show ?thesis by (auto simp: addEdge_def Let_def)
  next
    case False
    from addVertex_ok[OF assms(3)] obtain h1 where 3: "addVertex M h G2 u = ok h1" by blast
    from addVertex_ok[OF assms(4)] obtain h2 where 4: "addVertex M h1 G2 v = ok h2" by blast
    show ?thesis
    proof (cases "v_index u < v_index v")
      case True
      have iv: "v_index u = v_index v - 1" and mi: "?i = v_index u" using True assms(2) by auto
      from E_at_ok[OF e2, of "v_index u" u] obtain G3 where
        a: "E_at G2 (v_index u) u = ok (lists_at G2 (v_index u) u, G3)" by auto
      note sa = E_at_store[OF a e2]
      from E_at_ok[OF sa(1), where i = "v_index u" and v = v] iv obtain lv G5 where
        b: "E_at (E_store G3 (v_index u) u ((lists_at G2 (v_index u) u)\<lparr>right_outgoing := right_outgoing (lists_at G2 (v_index u) u) @ [v]\<rparr>)) (v_index u) v = ok (lv, G5)"
        by blast
      note sb = E_at_store[OF b sa(1)]
      from E_getitem_ok[OF sb(1), where i = "v_index u"] obtain S6 G7 where
        6: "E_getitem (E_store G5 (v_index u) v (lv\<lparr>left_incoming := left_incoming lv @ [u]\<rparr>)) (v_index u) = ok (S6, G7)"
        by blast
      show ?thesis
        using 1(1) idx assms(2) 2(1) False 3 4 True a b 6
        by (simp add: addEdge_def Let_def mi)
    next
      case False2: False
      have iu: "v_index v = v_index u - 1" and mi: "?i = v_index v" using False2 assms(2) by auto
      from E_at_ok[OF e2, of "v_index v" u] iu obtain G3 where
        a: "E_at G2 (v_index v) u = ok (lists_at G2 (v_index v) u, G3)" by auto
      note sa = E_at_store[OF a e2]
      from E_at_ok[OF sa(1), where i = "v_index v" and v = v] obtain lv G5 where
        b: "E_at (E_store G3 (v_index v) u ((lists_at G2 (v_index v) u)\<lparr>left_outgoing := left_outgoing (lists_at G2 (v_index v) u) @ [v]\<rparr>)) (v_index v) v = ok (lv, G5)"
        by blast
      note sb = E_at_store[OF b sa(1)]
      from E_getitem_ok[OF sb(1), where i = "v_index v"] obtain S6 G7 where
        6: "E_getitem (E_store G5 (v_index v) v (lv\<lparr>right_incoming := right_incoming lv @ [u]\<rparr>)) (v_index v) = ok (S6, G7)"
        by blast
      show ?thesis
        using 1(1) idx assms(2) 2(1) False 3 4 False2 a b 6
        by (simp add: addEdge_def Let_def mi)
    qed
  qed
qed

lemma addEdge_fail:
  assumes "E_ok G" "abs (v_index u - v_index v) \<noteq> 1" "\<not> has G (u, v)"
  shows "addEdge M h G (u, v) = raise AssertionError"
proof -
  let ?i = "min (v_index u) (v_index v)"
  from E_getitem_ok[OF assms(1), of ?i] obtain G1 where
    1: "E_getitem G ?i = ok (slice_view G ?i, G1)" "sim G G1" by blast
  show ?thesis
  proof (cases "v_index u = v_index v")
    case True
    with 1 show ?thesis by (simp add: addEdge_def Let_def)
  next
    case False
    with assms(2) have gt: "abs (v_index u - v_index v) > 1" by auto
    have "\<not> has G1 (u, v)" using assms(3) 1(2) by (simp add: sim_has)
    from hasEdge_fail[OF sim_E_ok[OF 1(2)] gt this] 1 False
    show ?thesis using assms(1) by (simp add: addEdge_def Let_def E_ok_def)
  qed
qed

subsection \<open>Well-formed edge lists\<close>

definition wf_lists :: "(int \<Rightarrow> vertex \<Rightarrow> edgelistof) \<Rightarrow> bool" where
  "wf_lists L \<longleftrightarrow> (\<forall>i w.
      (\<forall>x\<in>set (right_outgoing (L i w)). v_index w = i \<and> v_index x = i + 1 \<and> w \<in> set (left_incoming (L i x)))
    \<and> (\<forall>x\<in>set (right_incoming (L i w)). v_index w = i \<and> v_index x = i + 1 \<and> w \<in> set (left_outgoing (L i x)))
    \<and> (\<forall>x\<in>set (left_incoming (L i w)). v_index w = i + 1 \<and> v_index x = i \<and> w \<in> set (right_outgoing (L i x)))
    \<and> (\<forall>x\<in>set (left_outgoing (L i w)). v_index w = i + 1 \<and> v_index x = i \<and> w \<in> set (right_incoming (L i x)))
    \<and> distinct (right_outgoing (L i w)) \<and> distinct (right_incoming (L i w))
    \<and> distinct (left_incoming (L i w)) \<and> distinct (left_outgoing (L i w)))"

definition wf_graph :: "graph \<Rightarrow> bool" where
  "wf_graph G \<longleftrightarrow> E_ok G \<and> wf_lists (lists_at G)"

lemma wf_listsD:
  assumes "wf_lists L"
  shows "x \<in> set (right_outgoing (L i w)) \<Longrightarrow> v_index w = i \<and> v_index x = i + 1 \<and> w \<in> set (left_incoming (L i x))"
    and "x \<in> set (right_incoming (L i w)) \<Longrightarrow> v_index w = i \<and> v_index x = i + 1 \<and> w \<in> set (left_outgoing (L i x))"
    and "x \<in> set (left_incoming (L i w)) \<Longrightarrow> v_index w = i + 1 \<and> v_index x = i \<and> w \<in> set (right_outgoing (L i x))"
    and "x \<in> set (left_outgoing (L i w)) \<Longrightarrow> v_index w = i + 1 \<and> v_index x = i \<and> w \<in> set (right_incoming (L i x))"
    and "distinct (right_outgoing (L i w))" and "distinct (right_incoming (L i w))"
    and "distinct (left_incoming (L i w))" and "distinct (left_outgoing (L i w))"
  using assms unfolding wf_lists_def by blast+

lemma has_wf:
  assumes "wf_graph G"
  shows "has G (u, v) \<longleftrightarrow>
     (v_index v = v_index u + 1 \<and> v \<in> set (right_outgoing (lists_at G (v_index u) u)))
   \<or> (v_index u = v_index v + 1 \<and> u \<in> set (right_incoming (lists_at G (v_index v) v)))"
proof -
  have wl: "wf_lists (lists_at G)" using assms by (simp add: wf_graph_def)
  let ?i = "min (v_index u) (v_index v)"
  have 1: "v_index u = ?i \<and> v_index v = ?i + 1" if "v \<in> set (right_outgoing (lists_at G ?i u))"
    using wf_listsD(1)[OF wl that] by simp
  have 2: "v_index v = ?i \<and> v_index u = ?i + 1" if "u \<in> set (right_incoming (lists_at G ?i v))"
    using wf_listsD(2)[OF wl that] by simp
  have 3: "?i = v_index u" if "v_index v = v_index u + 1" using that by simp
  have 4: "?i = v_index v" if "v_index u = v_index v + 1" using that by simp
  show ?thesis
    unfolding has_def Let_def prod.case
    using 1 2 3 4 by metis
qed

lemma has_adjacent: "wf_graph G \<Longrightarrow> has G (u, v) \<Longrightarrow> abs (v_index u - v_index v) = 1"
  by (auto simp: has_wf)

lemma lists_at_new: "lists_at (snd (DynamicComputationGraph h)) i w = EdgeListOf"
  by (auto simp: DynamicComputationGraph_def lists_at_def slice_view_def ca_view_def CellArray_def
      isDefined_def EdgeSlice_def lists_of_def)

lemma E_ok_new: "E_ok (snd (DynamicComputationGraph h))"
  by (auto simp: DynamicComputationGraph_def E_ok_def slice_view_def ca_view_def CellArray_def
      isDefined_def EdgeSlice_def)

lemma wf_graph_new: "wf_graph (snd (DynamicComputationGraph h))"
  by (simp add: wf_graph_def E_ok_new wf_lists_def lists_at_new EdgeListOf_def)

lemma sim_wf: "sim G G' \<Longrightarrow> wf_graph G \<Longrightarrow> wf_graph G'"
  by (simp add: sim_def wf_graph_def)

lemma add_lists_right:
  assumes "v_index u < v_index v"
  shows "right_outgoing (add_lists L (u, v) i w)
          = (if i = v_index u \<and> w = u then right_outgoing (L i w) @ [v] else right_outgoing (L i w))"
    and "left_incoming (add_lists L (u, v) i w)
          = (if i = v_index u \<and> w = v then left_incoming (L i w) @ [u] else left_incoming (L i w))"
    and "right_incoming (add_lists L (u, v) i w) = right_incoming (L i w)"
    and "left_outgoing (add_lists L (u, v) i w) = left_outgoing (L i w)"
  using assms by (auto simp: add_lists_def)

lemma add_lists_left:
  assumes "\<not> v_index u < v_index v"
  shows "left_outgoing (add_lists L (u, v) i w)
          = (if i = v_index v \<and> w = u \<and> u \<noteq> v then left_outgoing (L i w) @ [v] else left_outgoing (L i w))"
    and "right_incoming (add_lists L (u, v) i w)
          = (if i = v_index v \<and> w = v then right_incoming (L i w) @ [u] else right_incoming (L i w))"
    and "right_outgoing (add_lists L (u, v) i w) = right_outgoing (L i w)"
    and "left_incoming (add_lists L (u, v) i w) = left_incoming (L i w)"
  using assms by (auto simp: add_lists_def)

lemma wf_add_lists:
  assumes "wf_lists L" "abs (v_index u - v_index v) = 1"
    and "\<not> (v_index v = v_index u + 1 \<and> v \<in> set (right_outgoing (L (v_index u) u)))"
    and "\<not> (v_index u = v_index v + 1 \<and> u \<in> set (right_incoming (L (v_index v) v)))"
  shows "wf_lists (add_lists L (u, v))"
proof (cases "v_index u < v_index v")
  case True
  then have vi: "v_index v = v_index u + 1" using assms(2) by auto
  have nu: "v \<notin> set (right_outgoing (L (v_index u) u))" using assms(3) vi by simp
  have nv: "u \<notin> set (left_incoming (L (v_index u) v))" using wf_listsD(3)[OF assms(1)] nu by blast
  note al = add_lists_right[OF True]
  note D = wf_listsD[OF assms(1)]
  show ?thesis
    unfolding wf_lists_def
  proof (intro allI conjI ballI)
    fix i w x assume "x \<in> set (right_outgoing (add_lists L (u, v) i w))"
    then show "v_index w = i" "v_index x = i + 1" "w \<in> set (left_incoming (add_lists L (u, v) i x))"
      using D(1)[of x i w] vi by (auto simp: al split: if_splits)
  next
    fix i w x assume "x \<in> set (right_incoming (add_lists L (u, v) i w))"
    then show "v_index w = i" "v_index x = i + 1" "w \<in> set (left_outgoing (add_lists L (u, v) i x))"
      using D(2)[of x i w] by (auto simp: al)
  next
    fix i w x assume "x \<in> set (left_incoming (add_lists L (u, v) i w))"
    then show "v_index w = i + 1" "v_index x = i" "w \<in> set (right_outgoing (add_lists L (u, v) i x))"
      using D(3)[of x i w] vi by (auto simp: al split: if_splits)
  next
    fix i w x assume "x \<in> set (left_outgoing (add_lists L (u, v) i w))"
    then show "v_index w = i + 1" "v_index x = i" "w \<in> set (right_incoming (add_lists L (u, v) i x))"
      using D(4)[of x i w] by (auto simp: al)
  next
    fix i w
    show "distinct (right_outgoing (add_lists L (u, v) i w))" "distinct (right_incoming (add_lists L (u, v) i w))"
      "distinct (left_incoming (add_lists L (u, v) i w))" "distinct (left_outgoing (add_lists L (u, v) i w))"
      using D(5-8)[of i w] nu nv by (auto simp: al)
  qed
next
  case False
  then have ui: "v_index u = v_index v + 1" using assms(2) by auto
  have uv: "u \<noteq> v" using ui by auto
  have nv: "u \<notin> set (right_incoming (L (v_index v) v))" using assms(4) ui by simp
  have nu: "v \<notin> set (left_outgoing (L (v_index v) u))" using wf_listsD(4)[OF assms(1)] nv by blast
  note al = add_lists_left[OF False]
  note D = wf_listsD[OF assms(1)]
  show ?thesis
    unfolding wf_lists_def
  proof (intro allI conjI ballI)
    fix i w x assume "x \<in> set (right_outgoing (add_lists L (u, v) i w))"
    then show "v_index w = i" "v_index x = i + 1" "w \<in> set (left_incoming (add_lists L (u, v) i x))"
      using D(1)[of x i w] by (auto simp: al)
  next
    fix i w x assume "x \<in> set (right_incoming (add_lists L (u, v) i w))"
    then show "v_index w = i" "v_index x = i + 1" "w \<in> set (left_outgoing (add_lists L (u, v) i x))"
      using D(2)[of x i w] ui uv by (auto simp: al split: if_splits)
  next
    fix i w x assume "x \<in> set (left_incoming (add_lists L (u, v) i w))"
    then show "v_index w = i + 1" "v_index x = i" "w \<in> set (right_outgoing (add_lists L (u, v) i x))"
      using D(3)[of x i w] by (auto simp: al)
  next
    fix i w x assume "x \<in> set (left_outgoing (add_lists L (u, v) i w))"
    then show "v_index w = i + 1" "v_index x = i" "w \<in> set (right_incoming (add_lists L (u, v) i x))"
      using D(4)[of x i w] ui uv by (auto simp: al split: if_splits)
  next
    fix i w
    show "distinct (right_outgoing (add_lists L (u, v) i w))" "distinct (right_incoming (add_lists L (u, v) i w))"
      "distinct (left_incoming (add_lists L (u, v) i w))" "distinct (left_outgoing (add_lists L (u, v) i w))"
      using D(5-8)[of i w] nu nv uv by (auto simp: al)
  qed
qed

subsection \<open>removeEdge\<close>

definition del_lists :: "(int \<Rightarrow> vertex \<Rightarrow> edgelistof) \<Rightarrow> edge \<Rightarrow> int \<Rightarrow> vertex \<Rightarrow> edgelistof" where
  "del_lists L e = (let (u, v) = e in
     if v_index u < v_index v
     then (\<lambda>j w. if j = v_index u \<and> w = v then (L j w)\<lparr>left_incoming := remove1 u (left_incoming (L j w))\<rparr>
                  else if j = v_index u \<and> w = u then (L j w)\<lparr>right_outgoing := remove1 v (right_outgoing (L j w))\<rparr>
                  else L j w)
     else (\<lambda>j w. if j = v_index v \<and> w = v then (L j w)\<lparr>right_incoming := remove1 u (right_incoming (L j w))\<rparr>
                  else if j = v_index v \<and> w = u then (L j w)\<lparr>left_outgoing := remove1 v (left_outgoing (L j w))\<rparr>
                  else L j w))"

lemma removeEdge_absent:
  assumes "removeEdge G e = ok G'" "E_ok G" "\<not> has G e"
  shows "sim G G'"
proof -
  obtain u v where e: "e = (u, v)" by (cases e)
  from assms(1) obtain b G1 where 1: "hasEdge G e = ok (b, G1)"
    by (auto simp: removeEdge_def e bindR_eq_ok)
  from hasEdge_okE[OF 1 assms(2)] assms(3) have "b = False" "sim G G1" by auto
  with assms(1) 1 show ?thesis by (simp add: removeEdge_def e)
qed

lemma removeEdge_absent_ok:
  assumes "E_ok G" "abs (v_index u - v_index v) \<le> 1" "\<not> has G (u, v)"
  shows "\<exists>G'. removeEdge G (u, v) = ok G' \<and> sim G G'"
proof -
  from hasEdge_ok[OF assms(1,2)] assms(3) obtain G1 where
    "hasEdge G (u, v) = ok (False, G1)" "sim G G1" by auto
  then show ?thesis by (simp add: removeEdge_def)
qed

lemma removeEdge_present:
  assumes "wf_graph G" "has G (u, v)"
  shows "\<exists>G'. removeEdge G (u, v) = ok G' \<and> E_ok G' \<and> same_rest G G'
         \<and> lists_at G' = del_lists (lists_at G) (u, v)
         \<and> (\<forall>j. es_edgeCount (slice_view G' j)
                = (if j = min (v_index u) (v_index v) then es_edgeCount (slice_view G j) - 1
                   else es_edgeCount (slice_view G j)))
         \<and> slice_total G' = slice_total G - 1 \<and> edgeCount G' = edgeCount G - 1"
proof -
  have eok: "E_ok G" and wl: "wf_lists (lists_at G)" using assms(1) by (simp_all add: wf_graph_def)
  have adj: "abs (v_index u - v_index v) = 1" by (rule has_adjacent[OF assms])
  from hasEdge_ok[OF eok, of u v] adj assms(2) obtain G1 where
    1: "hasEdge G (u, v) = ok (True, G1)" "sim G G1" by auto
  have e1: "E_ok G1" by (rule sim_E_ok[OF 1(2)])
  have L1: "lists_at G1 = lists_at G" using 1(2) by (simp add: sim_def)
  have uv: "u \<noteq> v" using adj by auto
  note D = wf_listsD[OF wl]
  show ?thesis
  proof (cases "v_index u < v_index v")
    case True
    have vi: "v_index v = v_index u + 1" and mi: "min (v_index u) (v_index v) = v_index u"
      using True adj by auto
    have m1: "v \<in> set (right_outgoing (lists_at G (v_index u) u))"
      using assms True by (auto simp: has_wf)
    have m2: "u \<in> set (left_incoming (lists_at G (v_index u) v))"
      using D(1)[OF m1] by simp
    from E_at_ok[OF e1, of "v_index u" u] L1 obtain G2 where
      a: "E_at G1 (v_index u) u = ok (lists_at G (v_index u) u, G2)" by auto
    let ?lu = "(lists_at G (v_index u) u)\<lparr>right_outgoing := remove1 v (right_outgoing (lists_at G (v_index u) u))\<rparr>"
    let ?G3 = "E_store G2 (v_index u) u ?lu"
    note sa = E_at_store[OF a e1]
    have l3: "lists_at ?G3 (v_index u) v = lists_at G (v_index u) v"
      using uv by (simp add: sa(2) L1)
    from E_at_ok[OF sa(1), where i = "v_index u" and v = v and l'1 = ?lu] vi l3 obtain G4 where
      b: "E_at ?G3 (v_index u) v = ok (lists_at G (v_index u) v, G4)" by auto
    let ?lv = "(lists_at G (v_index u) v)\<lparr>left_incoming := remove1 u (left_incoming (lists_at G (v_index u) v))\<rparr>"
    let ?G5 = "E_store G4 (v_index u) v ?lv"
    have r: "E_ok ?G5 \<and> same_counts G1 ?G5 \<and> same_rest G1 ?G5
      \<and> lists_at ?G5 = (\<lambda>j w. if j = v_index u \<and> w = v then ?lv
                              else if j = v_index u \<and> w = u then ?lu else lists_at G j w)"
      using append_two_entries[where f = "\<lambda>l. l\<lparr>right_outgoing := remove1 v (right_outgoing l)\<rparr>"
               and g = "\<lambda>l. l\<lparr>left_incoming := remove1 u (left_incoming l)\<rparr>", OF e1 a b uv refl, unfolded L1]
      by simp
    then have e5: "E_ok ?G5" by simp
    from E_getitem_ok[OF e5, of "v_index u"] obtain G6 where
      c: "E_getitem ?G5 (v_index u) = ok (slice_view ?G5 (v_index u), G6)" by blast
    define G7 where "G7 = G6\<lparr>E := ca_store (E G6) (v_index u)
         ((slice_view ?G5 (v_index u))\<lparr>es_edgeCount := es_edgeCount (slice_view ?G5 (v_index u)) - 1\<rparr>)\<rparr>"
    note cs = E_count_store[OF c e5, where c = "es_edgeCount (slice_view ?G5 (v_index u)) - 1", folded G7_def]
    have res: "removeEdge G (u, v) = ok (G7\<lparr>edgeCount := edgeCount G7 - 1\<rparr>)"
      using 1(1) True a m1 b m2 c
      by (simp add: removeEdge_def py_remove_def G7_def)
    have cnt: "es_edgeCount (slice_view ?G5 j) = es_edgeCount (slice_view G j)" for j
      using r 1(2) by (simp add: same_counts_def sim_def)
    have tot: "slice_total ?G5 = slice_total G" "edgeCount ?G5 = edgeCount G"
      using r 1(2) by (simp_all add: same_counts_def sim_def)
    have rest: "same_rest G ?G5"
      using r 1(2) by (auto simp: sim_alt intro: same_rest_trans)
    have la: "lists_at ?G5 = del_lists (lists_at G) (u, v)"
      using r True by (auto simp: del_lists_def fun_eq_iff)
    let ?G' = "G7\<lparr>edgeCount := edgeCount G7 - 1\<rparr>"
    have "E_ok ?G'" by (simp add: edgeCount_update_view cs(1))
    moreover have "same_rest G ?G'"
      by (simp add: edgeCount_update_view same_rest_trans[OF rest cs(3)])
    moreover have "lists_at ?G' = del_lists (lists_at G) (u, v)"
      by (simp add: edgeCount_update_view cs(2) la)
    moreover have "es_edgeCount (slice_view ?G' j)
                = (if j = min (v_index u) (v_index v) then es_edgeCount (slice_view G j) - 1
                   else es_edgeCount (slice_view G j))" for j
      by (simp add: edgeCount_update_view cs(4) cnt mi)
    moreover have "slice_total ?G' = slice_total G - 1"
      by (simp add: edgeCount_update_view cs(5) tot)
    moreover have "edgeCount ?G' = edgeCount G - 1"
      by (simp add: cs(6) tot)
    ultimately show ?thesis using res by blast
  next
    case False
    have ui: "v_index u = v_index v + 1" and mi: "min (v_index u) (v_index v) = v_index v"
      using False adj by auto
    have m2: "u \<in> set (right_incoming (lists_at G (v_index v) v))"
      using assms False ui by (auto simp: has_wf)
    have m1: "v \<in> set (left_outgoing (lists_at G (v_index v) u))"
      using D(2)[OF m2] by simp
    from E_at_ok[OF e1, of "v_index v" u] ui L1 obtain G2 where
      a: "E_at G1 (v_index v) u = ok (lists_at G (v_index v) u, G2)" by auto
    let ?lu = "(lists_at G (v_index v) u)\<lparr>left_outgoing := remove1 v (left_outgoing (lists_at G (v_index v) u))\<rparr>"
    let ?G3 = "E_store G2 (v_index v) u ?lu"
    note sa = E_at_store[OF a e1]
    have l3: "lists_at ?G3 (v_index v) v = lists_at G (v_index v) v"
      using uv by (simp add: sa(2) L1)
    from E_at_ok[OF sa(1), where i = "v_index v" and v = v and l'1 = ?lu] l3 obtain G4 where
      b: "E_at ?G3 (v_index v) v = ok (lists_at G (v_index v) v, G4)" by auto
    let ?lv = "(lists_at G (v_index v) v)\<lparr>right_incoming := remove1 u (right_incoming (lists_at G (v_index v) v))\<rparr>"
    let ?G5 = "E_store G4 (v_index v) v ?lv"
    have r: "E_ok ?G5 \<and> same_counts G1 ?G5 \<and> same_rest G1 ?G5
      \<and> lists_at ?G5 = (\<lambda>j w. if j = v_index v \<and> w = v then ?lv
                              else if j = v_index v \<and> w = u then ?lu else lists_at G j w)"
      using append_two_entries[where f = "\<lambda>l. l\<lparr>left_outgoing := remove1 v (left_outgoing l)\<rparr>"
               and g = "\<lambda>l. l\<lparr>right_incoming := remove1 u (right_incoming l)\<rparr>", OF e1 a b uv refl, unfolded L1]
      by simp
    then have e5: "E_ok ?G5" by simp
    from E_getitem_ok[OF e5, of "v_index v"] obtain G6 where
      c: "E_getitem ?G5 (v_index v) = ok (slice_view ?G5 (v_index v), G6)" by blast
    define G7 where "G7 = G6\<lparr>E := ca_store (E G6) (v_index v)
         ((slice_view ?G5 (v_index v))\<lparr>es_edgeCount := es_edgeCount (slice_view ?G5 (v_index v)) - 1\<rparr>)\<rparr>"
    note cs = E_count_store[OF c e5, where c = "es_edgeCount (slice_view ?G5 (v_index v)) - 1", folded G7_def]
    have res: "removeEdge G (u, v) = ok (G7\<lparr>edgeCount := edgeCount G7 - 1\<rparr>)"
      using 1(1) False a m1 b m2 c
      by (simp add: removeEdge_def py_remove_def G7_def)
    have cnt: "es_edgeCount (slice_view ?G5 j) = es_edgeCount (slice_view G j)" for j
      using r 1(2) by (simp add: same_counts_def sim_def)
    have tot: "slice_total ?G5 = slice_total G" "edgeCount ?G5 = edgeCount G"
      using r 1(2) by (simp_all add: same_counts_def sim_def)
    have rest: "same_rest G ?G5"
      using r 1(2) by (auto simp: sim_alt intro: same_rest_trans)
    have la: "lists_at ?G5 = del_lists (lists_at G) (u, v)"
      using r False by (auto simp: del_lists_def fun_eq_iff)
    let ?G' = "G7\<lparr>edgeCount := edgeCount G7 - 1\<rparr>"
    have "E_ok ?G'" by (simp add: edgeCount_update_view cs(1))
    moreover have "same_rest G ?G'"
      by (simp add: edgeCount_update_view same_rest_trans[OF rest cs(3)])
    moreover have "lists_at ?G' = del_lists (lists_at G) (u, v)"
      by (simp add: edgeCount_update_view cs(2) la)
    moreover have "es_edgeCount (slice_view ?G' j)
                = (if j = min (v_index u) (v_index v) then es_edgeCount (slice_view G j) - 1
                   else es_edgeCount (slice_view G j))" for j
      by (simp add: edgeCount_update_view cs(4) cnt mi)
    moreover have "slice_total ?G' = slice_total G - 1"
      by (simp add: edgeCount_update_view cs(5) tot)
    moreover have "edgeCount ?G' = edgeCount G - 1"
      by (simp add: cs(6) tot)
    ultimately show ?thesis using res by blast
  qed
qed

subsection \<open>The edge set under addEdge and removeEdge\<close>

lemma del_lists_right:
  assumes "v_index u < v_index v"
  shows "right_outgoing (del_lists L (u, v) i w)
          = (if i = v_index u \<and> w = u then remove1 v (right_outgoing (L i w)) else right_outgoing (L i w))"
    and "left_incoming (del_lists L (u, v) i w)
          = (if i = v_index u \<and> w = v then remove1 u (left_incoming (L i w)) else left_incoming (L i w))"
    and "right_incoming (del_lists L (u, v) i w) = right_incoming (L i w)"
    and "left_outgoing (del_lists L (u, v) i w) = left_outgoing (L i w)"
  using assms by (auto simp: del_lists_def)

lemma del_lists_left:
  assumes "\<not> v_index u < v_index v"
  shows "left_outgoing (del_lists L (u, v) i w)
          = (if i = v_index v \<and> w = u \<and> u \<noteq> v then remove1 v (left_outgoing (L i w)) else left_outgoing (L i w))"
    and "right_incoming (del_lists L (u, v) i w)
          = (if i = v_index v \<and> w = v then remove1 u (right_incoming (L i w)) else right_incoming (L i w))"
    and "right_outgoing (del_lists L (u, v) i w) = right_outgoing (L i w)"
    and "left_incoming (del_lists L (u, v) i w) = left_incoming (L i w)"
  using assms by (auto simp: del_lists_def)

lemma wf_del_lists:
  assumes "wf_lists L" "abs (v_index u - v_index v) = 1"
  shows "wf_lists (del_lists L (u, v))"
proof (cases "v_index u < v_index v")
  case True
  then have vi: "v_index v = v_index u + 1" using assms(2) by auto
  note al = del_lists_right[OF True]
  note D = wf_listsD[OF assms(1)]
  show ?thesis
    unfolding wf_lists_def
  proof (intro allI conjI ballI)
    fix i w x assume "x \<in> set (right_outgoing (del_lists L (u, v) i w))"
    then show "v_index w = i" "v_index x = i + 1" "w \<in> set (left_incoming (del_lists L (u, v) i x))"
      using D(1)[of x i w] D(5)[of i w] vi by (auto simp: al split: if_splits)
  next
    fix i w x assume "x \<in> set (right_incoming (del_lists L (u, v) i w))"
    then show "v_index w = i" "v_index x = i + 1" "w \<in> set (left_outgoing (del_lists L (u, v) i x))"
      using D(2)[of x i w] by (auto simp: al)
  next
    fix i w x assume "x \<in> set (left_incoming (del_lists L (u, v) i w))"
    then show "v_index w = i + 1" "v_index x = i" "w \<in> set (right_outgoing (del_lists L (u, v) i x))"
      using D(3)[of x i w] D(7)[of i w] vi by (auto simp: al split: if_splits)
  next
    fix i w x assume "x \<in> set (left_outgoing (del_lists L (u, v) i w))"
    then show "v_index w = i + 1" "v_index x = i" "w \<in> set (right_incoming (del_lists L (u, v) i x))"
      using D(4)[of x i w] by (auto simp: al)
  next
    fix i w
    show "distinct (right_outgoing (del_lists L (u, v) i w))" "distinct (right_incoming (del_lists L (u, v) i w))"
      "distinct (left_incoming (del_lists L (u, v) i w))" "distinct (left_outgoing (del_lists L (u, v) i w))"
      using D(5-8)[of i w] by (auto simp: al)
  qed
next
  case False
  then have ui: "v_index u = v_index v + 1" using assms(2) by auto
  have uv: "u \<noteq> v" using ui by auto
  note al = del_lists_left[OF False]
  note D = wf_listsD[OF assms(1)]
  show ?thesis
    unfolding wf_lists_def
  proof (intro allI conjI ballI)
    fix i w x assume "x \<in> set (right_outgoing (del_lists L (u, v) i w))"
    then show "v_index w = i" "v_index x = i + 1" "w \<in> set (left_incoming (del_lists L (u, v) i x))"
      using D(1)[of x i w] by (auto simp: al)
  next
    fix i w x assume "x \<in> set (right_incoming (del_lists L (u, v) i w))"
    then show "v_index w = i" "v_index x = i + 1" "w \<in> set (left_outgoing (del_lists L (u, v) i x))"
      using D(2)[of x i w] D(6)[of i w] ui uv by (auto simp: al split: if_splits)
  next
    fix i w x assume "x \<in> set (left_incoming (del_lists L (u, v) i w))"
    then show "v_index w = i + 1" "v_index x = i" "w \<in> set (right_outgoing (del_lists L (u, v) i x))"
      using D(3)[of x i w] by (auto simp: al)
  next
    fix i w x assume "x \<in> set (left_outgoing (del_lists L (u, v) i w))"
    then show "v_index w = i + 1" "v_index x = i" "w \<in> set (right_incoming (del_lists L (u, v) i x))"
      using D(4)[of x i w] D(8)[of i w] ui uv by (auto simp: al split: if_splits)
  next
    fix i w
    show "distinct (right_outgoing (del_lists L (u, v) i w))" "distinct (right_incoming (del_lists L (u, v) i w))"
      "distinct (left_incoming (del_lists L (u, v) i w))" "distinct (left_outgoing (del_lists L (u, v) i w))"
      using D(5-8)[of i w] by (auto simp: al)
  qed
qed

definition hasL :: "(int \<Rightarrow> vertex \<Rightarrow> edgelistof) \<Rightarrow> edge \<Rightarrow> bool" where
  "hasL L e \<longleftrightarrow> (let (u, v) = e; i = min (v_index u) (v_index v)
     in v \<in> set (right_outgoing (L i u)) \<or> u \<in> set (right_incoming (L i v)))"

lemma has_hasL: "has G e = hasL (lists_at G) e"
  by (simp add: has_def hasL_def)

lemma hasL_add:
  assumes "v_index u \<noteq> v_index v"
  shows "hasL (add_lists L (u, v)) e \<longleftrightarrow> hasL L e \<or> e = (u, v)"
proof (cases "v_index u < v_index v")
  case True
  then show ?thesis
    by (cases e) (auto simp: hasL_def Let_def add_lists_right[OF True] min_def)
next
  case False
  with assms have lt: "v_index v < v_index u" by simp
  then show ?thesis
    by (cases e) (auto simp: hasL_def Let_def add_lists_left[OF False] min_def)
qed

lemma hasL_del:
  assumes "wf_lists L" "abs (v_index u - v_index v) = 1"
  shows "hasL (del_lists L (u, v)) e \<longleftrightarrow> hasL L e \<and> e \<noteq> (u, v)"
proof (cases "v_index u < v_index v")
  case True
  note D = wf_listsD[OF assms(1)]
  have "u \<notin> set (right_incoming (L (v_index u) v))" using D(2)[of u "v_index u" v] True by auto
  then show ?thesis using D(5)[of "v_index u" u] True
    by (cases e) (auto simp: hasL_def Let_def del_lists_right[OF True] min_def)
next
  case False
  with assms have lt: "v_index v < v_index u" by auto
  note D = wf_listsD[OF assms(1)]
  have "v \<notin> set (right_outgoing (L (v_index v) u))" using D(1)[of v "v_index v" u] lt by auto
  then show ?thesis using D(6)[of "v_index v" v] lt
    by (cases e) (auto simp: hasL_def Let_def del_lists_left[OF False] min_def)
qed

section \<open>Edge insertion and removal: claims C3, C5, C6 and C7\<close>

lemma addEdge_wf:
  assumes "addEdge M h G (u, v) = ok (h', G')" "wf_graph G"
  shows "wf_graph G' \<and> same_rest G G' \<and> (\<forall>e. has G' e \<longleftrightarrow> has G e \<or> e = (u, v))
       \<and> edgeCount G' - slice_total G' = edgeCount G - slice_total G
       \<and> abs (v_index u - v_index v) = 1"
proof -
  have eok: "E_ok G" and wl: "wf_lists (lists_at G)" using assms(2) by (simp_all add: wf_graph_def)
  show ?thesis
  proof (cases "has G (u, v)")
    case True
    from addEdge_okE(1)[OF assms(1) eok True] have s: "sim G G'" by simp
    have hs: "has G' e = has G e" for e by (rule sim_has[OF s])
    show ?thesis using s True sim_wf[OF s assms(2)] has_adjacent[OF assms(2) True]
      by (auto simp: hs sim_alt same_counts_def)
  next
    case False
    note r = addEdge_okE(2)[OF assms(1) eok False]
    have nh: "\<not> (v_index v = v_index u + 1 \<and> v \<in> set (right_outgoing (lists_at G (v_index u) u)))"
         "\<not> (v_index u = v_index v + 1 \<and> u \<in> set (right_incoming (lists_at G (v_index v) v)))"
      using False by (simp_all add: has_wf[OF assms(2)])
    have adj: "abs (v_index u - v_index v) = 1" using r by simp
    have "wf_lists (add_lists (lists_at G) (u, v))"
      by (rule wf_add_lists[OF wl adj nh])
    then have "wf_graph G'" using r by (simp add: wf_graph_def)
    moreover have "has G' e \<longleftrightarrow> has G e \<or> e = (u, v)" for e
      using r adj by (simp add: has_hasL hasL_add)
    ultimately show ?thesis using r by auto
  qed
qed

lemma removeEdge_wf:
  assumes "removeEdge G (u, v) = ok G'" "wf_graph G"
  shows "wf_graph G' \<and> same_rest G G' \<and> (\<forall>e. has G' e \<longleftrightarrow> has G e \<and> e \<noteq> (u, v))
       \<and> edgeCount G' - slice_total G' = edgeCount G - slice_total G"
proof (cases "has G (u, v)")
  case True
  from removeEdge_present[OF assms(2) True] assms(1) have
    r: "E_ok G'" "same_rest G G'" "lists_at G' = del_lists (lists_at G) (u, v)"
       "slice_total G' = slice_total G - 1" "edgeCount G' = edgeCount G - 1"
    by auto
  have wl: "wf_lists (lists_at G)" using assms(2) by (simp add: wf_graph_def)
  have adj: "abs (v_index u - v_index v) = 1" by (rule has_adjacent[OF assms(2) True])
  have "wf_graph G'" using r wf_del_lists[OF wl adj] by (simp add: wf_graph_def)
  moreover have "has G' e \<longleftrightarrow> has G e \<and> e \<noteq> (u, v)" for e
    using r(3) by (simp add: has_hasL hasL_del[OF wl adj])
  ultimately show ?thesis using r by auto
next
  case False
  have eok: "E_ok G" using assms(2) by (simp add: wf_graph_def)
  from removeEdge_absent[OF assms(1) eok False] have s: "sim G G'" .
  have hs: "has G' e = has G e" for e by (rule sim_has[OF s])
  show ?thesis using s False sim_wf[OF s assms(2)]
    by (auto simp: hs sim_alt same_counts_def)
qed

datatype mutation = AddEdge edge | RemoveEdge edge

fun mutate :: "env \<Rightarrow> heap \<Rightarrow> graph \<Rightarrow> mutation list \<Rightarrow> (heap \<times> graph) res" where
  "mutate M h G [] = ok (h, G)"
| "mutate M h G (AddEdge e # ms) = bindR (addEdge M h G e) (\<lambda>(h', G'). mutate M h' G' ms)"
| "mutate M h G (RemoveEdge e # ms) = bindR (removeEdge G e) (\<lambda>G'. mutate M h G' ms)"

lemma mutate_invariant:
  assumes "mutate M h G ms = ok (h', G')" "wf_graph G" "size_g G = slice_total G"
  shows "wf_graph G' \<and> size_g G' = slice_total G'"
  using assms
proof (induction ms arbitrary: h G)
  case Nil
  then show ?case by simp
next
  case (Cons m ms)
  show ?case
  proof (cases m)
    case (AddEdge e)
    obtain u v where e: "e = (u, v)" by (cases e)
    from Cons.prems(1) AddEdge obtain h1 G1 where
      1: "addEdge M h G (u, v) = ok (h1, G1)" and 2: "mutate M h1 G1 ms = ok (h', G')"
      by (auto simp: bindR_eq_ok e)
    from addEdge_wf[OF 1 Cons.prems(2)] Cons.prems(3)
    have "wf_graph G1" "size_g G1 = slice_total G1" by (auto simp: size_g_def)
    from Cons.IH[OF 2 this] show ?thesis .
  next
    case (RemoveEdge e)
    obtain u v where e: "e = (u, v)" by (cases e)
    from Cons.prems(1) RemoveEdge obtain G1 where
      1: "removeEdge G (u, v) = ok G1" and 2: "mutate M h G1 ms = ok (h', G')"
      by (auto simp: bindR_eq_ok e)
    from removeEdge_wf[OF 1 Cons.prems(2)] Cons.prems(3)
    have "wf_graph G1" "size_g G1 = slice_total G1" by (auto simp: size_g_def)
    from Cons.IH[OF 2 this] show ?thesis .
  qed
qed

lemma slice_total_new: "slice_total (snd (DynamicComputationGraph h)) = 0"
  by (simp add: DynamicComputationGraph_def slice_total_def CellArray_def)

lemma size_g_new: "size_g (snd (DynamicComputationGraph h)) = 0"
  by (simp add: DynamicComputationGraph_def size_g_def)

definition order_by :: "'a list \<Rightarrow> 'a set \<Rightarrow> 'a list" where
  "order_by us S = filter (\<lambda>x. x \<in> S) us"

definition ex_heap :: heap where
  "ex_heap = \<lparr>fresh = 0, cells = (\<lambda>a. CellArray)\<rparr>"

definition fl :: "int \<Rightarrow> vertex" where
  "fl i = \<lparr>v_index = i, v_tier = 0, v_state = ''q'', v_symbol = ''a'', v_pred = None\<rparr>"

definition ex_env :: env where
  "ex_env = \<lparr>delta = (\<lambda>q s. Some (q, s, 1)), symbols = {''a''},
     vorder = order_by [fl 0, fl 1, fl 2], eorder = order_by [(fl 0, fl 1), (fl 1, fl 0), (fl 1, fl 2)]\<rparr>"

abbreviation ex_h :: heap where "ex_h \<equiv> fst (DynamicComputationGraph ex_heap)"
abbreviation ex_G :: graph where "ex_G \<equiv> snd (DynamicComputationGraph ex_heap)"

text \<open>
  Claim C3.  On a graph built by the constructor, \<open>addEdge\<close> and \<open>removeEdge\<close>
  (\<open>wf_graph\<close>, kept by both), \<open>addEdge((u, v))\<close> raises \<open>AssertionError\<close>
  whenever the indices of \<open>u\<close> and \<open>v\<close> do not differ by exactly 1: for equal
  indices in the assertion of \<open>addEdge\<close> itself, otherwise in the assertion of
  \<open>EdgeSlice.__getitem__\<close> reached through \<open>hasEdge\<close>.  When they differ by
  exactly 1 and both vertices are vertices of the machine (their symbol is in the
  alphabet and the oracle is defined on them), \<open>addEdge\<close> returns.
\<close>

theorem addEdge_index_contract:
  "wf_graph G \<Longrightarrow>
     (abs (v_index u - v_index v) \<noteq> 1 \<longrightarrow> addEdge M h G (u, v) = raise AssertionError)
   \<and> (abs (v_index u - v_index v) = 1 \<and> vertex_ok M u \<and> vertex_ok M v
        \<longrightarrow> (\<exists>h' G'. addEdge M h G (u, v) = ok (h', G')))"
proof (intro conjI impI)
  assume wf: "wf_graph G" and na: "abs (v_index u - v_index v) \<noteq> 1"
  then have "\<not> has G (u, v)" using has_adjacent[OF wf] by blast
  with wf na show "addEdge M h G (u, v) = raise AssertionError"
    by (intro addEdge_fail) (simp_all add: wf_graph_def)
next
  assume "wf_graph G" "abs (v_index u - v_index v) = 1 \<and> vertex_ok M u \<and> vertex_ok M v"
  then show "\<exists>h' G'. addEdge M h G (u, v) = ok (h', G')"
    by (intro addEdge_ok) (simp_all add: wf_graph_def)
qed

theorem addEdge_index_contract_witness:
  "addEdge ex_env ex_h ex_G (fl 0, fl 2) = raise AssertionError
   \<and> addEdge ex_env ex_h ex_G (fl 1, fl 1) = raise AssertionError
   \<and> (\<exists>h' G'. addEdge ex_env ex_h ex_G (fl 0, fl 1) = ok (h', G'))"
  using addEdge_index_contract[OF wf_graph_new, where u = "fl 0" and v = "fl 2" and h1 = ex_heap and M = ex_env and h = ex_h]
        addEdge_index_contract[OF wf_graph_new, where u = "fl 1" and v = "fl 1" and h1 = ex_heap and M = ex_env and h = ex_h]
        addEdge_index_contract[OF wf_graph_new, where u = "fl 0" and v = "fl 1" and h1 = ex_heap and M = ex_env and h = ex_h]
  by (simp add: fl_def vertex_ok_def ex_env_def)

text \<open>
  Claim C5.  After any sequence of \<open>addEdge\<close> and \<open>removeEdge\<close> calls on a graph
  made by the constructor, \<open>size(G)\<close> is the sum of \<open>edgeCount\<close> over the
  materialised edge slices.
\<close>

theorem conservation:
  "mutate M (fst (DynamicComputationGraph h)) (snd (DynamicComputationGraph h)) ms = ok (h', G')
   \<Longrightarrow> size_g G' = sum_list (map es_edgeCount (ca_items (E G')))"
proof -
  assume "mutate M (fst (DynamicComputationGraph h)) (snd (DynamicComputationGraph h)) ms = ok (h', G')"
  moreover have "size_g (snd (DynamicComputationGraph h)) = slice_total (snd (DynamicComputationGraph h))"
    by (simp add: slice_total_new size_g_new)
  ultimately have "size_g G' = slice_total G'"
    using mutate_invariant wf_graph_new by blast
  then show ?thesis by (simp add: slice_total_def)
qed


definition is_ok :: "'a res \<Rightarrow> bool" where
  "is_ok r = (case r of Some (Inr x) \<Rightarrow> True | _ \<Rightarrow> False)"

lemma is_okE: "is_ok r \<Longrightarrow> \<exists>x. r = ok x"
  by (auto simp: is_ok_def split: option.splits sum.splits)

theorem conservation_witness:
  "\<exists>h' G'. mutate ex_env ex_h ex_G [AddEdge (fl 0, fl 1), AddEdge (fl 1, fl 0), RemoveEdge (fl 0, fl 1)] = ok (h', G')
     \<and> size_g G' = sum_list (map es_edgeCount (ca_items (E G')))"
proof -
  have "is_ok (mutate ex_env ex_h ex_G [AddEdge (fl 0, fl 1), AddEdge (fl 1, fl 0), RemoveEdge (fl 0, fl 1)])"
    by code_simp
  then obtain h' G' where
    r: "mutate ex_env ex_h ex_G [AddEdge (fl 0, fl 1), AddEdge (fl 1, fl 0), RemoveEdge (fl 0, fl 1)] = ok (h', G')"
    by (auto dest: is_okE)
  from conservation[OF r] r show ?thesis by blast
qed

lemma addEdge_present:
  assumes "E_ok G" "abs (v_index u - v_index v) = 1" "has G (u, v)"
  shows "\<exists>G'. addEdge M h G (u, v) = ok (h, G') \<and> sim G G'"
proof -
  let ?i = "min (v_index u) (v_index v)"
  from E_getitem_ok[OF assms(1), of ?i] obtain G1 where
    1: "E_getitem G ?i = ok (slice_view G ?i, G1)" "sim G G1" by blast
  have idx: "es_index (slice_view G ?i) = ?i" using assms(1) by (simp add: E_ok_def)
  from hasEdge_ok[OF sim_E_ok[OF 1(2)], of u v] assms(2) obtain G2 where
    2: "hasEdge G1 (u, v) = ok (has G1 (u, v), G2)" "sim G1 G2" by auto
  have "has G1 (u, v)" using assms(3) by (simp add: sim_has[OF 1(2)])
  with 1 2 idx assms(2) have "addEdge M h G (u, v) = ok (h, G2)"
    by (auto simp: addEdge_def Let_def)
  then show ?thesis using sim_trans[OF 1(2) 2(2)] by blast
qed

text \<open>
  Claim C6.  For an index-adjacent pair \<open>(u, v)\<close>, \<open>hasEdge\<close> answers \<open>has G (u, v)\<close>.
  If the edge is present, \<open>addEdge((u, v))\<close> returns with the store of vertices
  untouched and a graph with the same edge lists, the same counters and the same
  \<open>V\<close> (\<open>sim\<close>); if it is absent, \<open>removeEdge((u, v))\<close> returns such a graph.
  (Reading may materialise empty slices and empty edge lists, which \<open>sim\<close> does not see.)
\<close>

theorem idempotence:
  "wf_graph G \<Longrightarrow> abs (v_index u - v_index v) = 1 \<Longrightarrow>
     (\<exists>G1. hasEdge G (u, v) = ok (has G (u, v), G1))
   \<and> (has G (u, v) \<longrightarrow> (\<exists>G'. addEdge M h G (u, v) = ok (h, G') \<and> sim G G'))
   \<and> (\<not> has G (u, v) \<longrightarrow> (\<exists>G'. removeEdge G (u, v) = ok G' \<and> sim G G'))"
proof (intro conjI impI)
  assume wf: "wf_graph G" and adj: "abs (v_index u - v_index v) = 1"
  then have eok: "E_ok G" by (simp add: wf_graph_def)
  show "\<exists>G1. hasEdge G (u, v) = ok (has G (u, v), G1)"
    using hasEdge_ok[OF eok, of u v] adj by auto
  show "\<exists>G'. addEdge M h G (u, v) = ok (h, G') \<and> sim G G'" if "has G (u, v)"
    by (rule addEdge_present[OF eok adj that])
  show "\<exists>G'. removeEdge G (u, v) = ok G' \<and> sim G G'" if "\<not> has G (u, v)"
    using removeEdge_absent_ok[OF eok _ that] adj by simp
qed

lemma has_new: "\<not> has (snd (DynamicComputationGraph h)) e"
  by (cases e) (simp add: has_def lists_at_new EdgeListOf_def)

theorem idempotence_witness:
  "\<exists>h1 G1. addEdge ex_env ex_h ex_G (fl 0, fl 1) = ok (h1, G1)
     \<and> (\<exists>G2. hasEdge G1 (fl 0, fl 1) = ok (True, G2))
     \<and> (\<exists>G'. addEdge ex_env h1 G1 (fl 0, fl 1) = ok (h1, G') \<and> sim G1 G')
     \<and> (\<exists>G2. hasEdge G1 (fl 1, fl 0) = ok (False, G2))
     \<and> (\<exists>G'. removeEdge G1 (fl 1, fl 0) = ok G' \<and> sim G1 G')"
proof -
  have "is_ok (addEdge ex_env ex_h ex_G (fl 0, fl 1))" by code_simp
  then obtain h1 G1 where r: "addEdge ex_env ex_h ex_G (fl 0, fl 1) = ok (h1, G1)"
    by (auto dest: is_okE)
  from addEdge_wf[OF r wf_graph_new] have wf: "wf_graph G1"
    and h: "has G1 (fl 0, fl 1)" "\<not> has G1 (fl 1, fl 0)"
    by (auto simp: has_new fl_def)
  have adj: "abs (v_index (fl 0) - v_index (fl 1)) = 1" "abs (v_index (fl 1) - v_index (fl 0)) = 1"
    by (simp_all add: fl_def)
  from idempotence[OF wf adj(1), of ex_env h1] idempotence[OF wf adj(2), of ex_env h1] h r
  show ?thesis by auto
qed

text \<open>
  Claim C7 as stated fails: after \<open>addEdge((u, v))\<close> alone, \<open>hasEdge((v, u))\<close> is
  false, and \<open>addEdge((v, u))\<close> then stores a second edge.
\<close>

theorem undirected_storage_counterexample:
  "bindR (addEdge ex_env ex_h ex_G (fl 0, fl 1)) (\<lambda>(h, G).
     bindR (hasEdge G (fl 1, fl 0)) (\<lambda>(b, G'). ok b)) = ok False
   \<and> bindR (addEdge ex_env ex_h ex_G (fl 0, fl 1)) (\<lambda>(h, G).
     bindR (addEdge ex_env h G (fl 1, fl 0)) (\<lambda>(h, G). ok (size_g G))) = ok 2"
  by code_simp

text \<open>
  Claim C7, as amended.  Edges are stored per ordered pair: after \<open>addEdge((u, v))\<close>
  returns, \<open>hasEdge((u, v))\<close> is true, \<open>hasEdge((v, u))\<close> answers what it answered
  before, every other pair is an edge exactly if it was one, a second
  \<open>addEdge((u, v))\<close> changes nothing, and no edge list holds a vertex twice
  (\<open>wf_graph\<close>).
\<close>

theorem directed_storage:
  "wf_graph G \<Longrightarrow> addEdge M h G (u, v) = ok (h1, G1) \<Longrightarrow>
     wf_graph G1
   \<and> (\<exists>G2. hasEdge G1 (u, v) = ok (True, G2))
   \<and> (\<exists>G2. hasEdge G1 (v, u) = ok (has G (v, u), G2))
   \<and> (\<forall>e. has G1 e \<longleftrightarrow> has G e \<or> e = (u, v))
   \<and> (\<exists>G2. addEdge M h1 G1 (u, v) = ok (h1, G2) \<and> sim G1 G2)"
proof -
  assume wf: "wf_graph G" and r: "addEdge M h G (u, v) = ok (h1, G1)"
  from addEdge_wf[OF r wf] have wf1: "wf_graph G1"
    and hs: "\<And>e. has G1 e \<longleftrightarrow> has G e \<or> e = (u, v)"
    and adj: "abs (v_index u - v_index v) = 1" by auto
  have eok1: "E_ok G1" using wf1 by (simp add: wf_graph_def)
  have uv: "u \<noteq> v" using adj by auto
  have h1: "has G1 (u, v)" and h2: "has G1 (v, u) = has G (v, u)" using hs uv by auto
  have adj': "abs (v_index v - v_index u) = 1" using adj by simp
  from hasEdge_ok[OF eok1, of u v] adj h1 have a: "\<exists>G2. hasEdge G1 (u, v) = ok (True, G2)" by auto
  from hasEdge_ok[OF eok1, of v u] adj' h2 have b: "\<exists>G2. hasEdge G1 (v, u) = ok (has G (v, u), G2)" by auto
  from addEdge_present[OF eok1 adj h1] have c: "\<exists>G2. addEdge M h1 G1 (u, v) = ok (h1, G2) \<and> sim G1 G2" .
  show ?thesis using wf1 a b hs c by blast
qed

theorem directed_storage_witness:
  "\<exists>h1 G1. addEdge ex_env ex_h ex_G (fl 0, fl 1) = ok (h1, G1)
     \<and> wf_graph G1
     \<and> (\<exists>G2. hasEdge G1 (fl 0, fl 1) = ok (True, G2))
     \<and> (\<exists>G2. hasEdge G1 (fl 1, fl 0) = ok (False, G2))
     \<and> (\<exists>G2. addEdge ex_env h1 G1 (fl 0, fl 1) = ok (h1, G2) \<and> sim G1 G2)"
proof -
  have "is_ok (addEdge ex_env ex_h ex_G (fl 0, fl 1))" by code_simp
  then obtain h1 G1 where r: "addEdge ex_env ex_h ex_G (fl 0, fl 1) = ok (h1, G1)"
    by (auto dest: is_okE)
  from directed_storage[OF wf_graph_new r] r show ?thesis
    by (auto simp: has_new)
qed

section \<open>Vertices of a transition case: claim C10\<close>

text \<open>The members of the set of \<open>T\<close> are vertices of \<open>T\<close> with a predecessor.\<close>

definition members_of :: "tcase \<Rightarrow> vertex set \<Rightarrow> bool" where
  "members_of T S \<longleftrightarrow> (\<forall>x\<in>S. transitionCase x = T \<and> v_pred x \<noteq> None)"

text \<open>A sequence of calls \<open>T.vertex(P)\<close> on one transition case.\<close>

fun vertex_calls :: "env \<Rightarrow> tcase \<Rightarrow> vertex set \<Rightarrow> tcase list \<Rightarrow> vertex set res" where
  "vertex_calls M T S [] = ok S"
| "vertex_calls M T S (P # Ps) = bindR (tc_vertex M T S (Some P)) (\<lambda>(v, S'). vertex_calls M T S' Ps)"

lemma tc_vertex_above:
  assumes "t_tier T > 0" "tc_vertex M T S (Some P) = ok (r, S')"
  shows "t_index P = t_index T \<and> t_tier P + 1 = t_tier T
       \<and> r = Some \<lparr>v_index = t_index T, v_tier = t_tier T, v_state = t_state T,
                    v_symbol = t_symbol T, v_pred = Some (t_state P, t_symbol P)\<rparr>
       \<and> S' = insert (the r) S"
  using assms by (auto simp: tc_vertex_def Let_def split: if_splits)

lemma members_of_inj:
  assumes "members_of T S" "x \<in> S" "y \<in> S" "v_pred x = v_pred y"
  shows "x = y"
proof -
  have "transitionCase x = transitionCase y" using assms by (simp add: members_of_def)
  then show ?thesis using assms(4) by (simp add: transitionCase_def)
qed

lemma vertex_calls_grow:
  assumes "vertex_calls M T S Ps = ok S'" "t_tier T > 0"
  shows "S \<subseteq> S' \<and> (members_of T S \<longrightarrow> members_of T S')"
  using assms
proof (induction Ps arbitrary: S)
  case Nil
  then show ?case by simp
next
  case (Cons P Ps)
  from Cons.prems(1) obtain r S1 where 1: "tc_vertex M T S (Some P) = ok (r, S1)"
    and 2: "vertex_calls M T S1 Ps = ok S'"
    by (auto simp: bindR_eq_ok)
  from tc_vertex_above [OF Cons.prems(2) 1]
  have S1: "S1 = insert (the r) S" and r: "r = Some \<lparr>v_index = t_index T, v_tier = t_tier T, v_state = t_state T,
                    v_symbol = t_symbol T, v_pred = Some (t_state P, t_symbol P)\<rparr>"
    by simp_all
  have m: "members_of T S \<longrightarrow> members_of T S1"
    unfolding S1 r by (simp add: members_of_def transitionCase_def)
  from Cons.IH [OF 2 Cons.prems(2)] S1 m show ?case by auto
qed

text \<open>
  Claim C10.  Let \<open>T\<close> be a transition case above tier 0 and \<open>P\<close>, \<open>P'\<close> predecessors
  that pass the two assertions and have the same state and the same symbol.  Then
  \<open>T.vertex(P)\<close> and a later \<open>T.vertex(P')\<close> return the same vertex (a vertex is its
  key), and the second call leaves the set as it is.  Over any sequence of calls
  from the constructor on, the set only grows and holds at most one vertex per
  pair of predecessor state and predecessor symbol.
\<close>

theorem vertex_deduplication:
  assumes "t_tier T > 0"
    and "t_index P = t_index T" "t_tier P + 1 = t_tier T"
    and "t_index P' = t_index T" "t_tier P' + 1 = t_tier T"
    and "t_state P' = t_state P" "t_symbol P' = t_symbol P"
  shows "(\<exists>v. tc_vertex M T S (Some P) = ok (Some v, insert v S)
            \<and> tc_vertex M T (insert v S) (Some P') = ok (Some v, insert v S))
       \<and> (\<forall>Ps S'. TransitionCase M (t_index T) (t_tier T) (t_state T) (t_symbol T) = ok S
              \<and> vertex_calls M T S Ps = ok S'
            \<longrightarrow> S \<subseteq> S' \<and> (\<forall>x\<in>S'. \<forall>y\<in>S'. v_pred x = v_pred y \<longrightarrow> x = y))"
proof (intro conjI allI impI)
  show "\<exists>v. tc_vertex M T S (Some P) = ok (Some v, insert v S)
            \<and> tc_vertex M T (insert v S) (Some P') = ok (Some v, insert v S)"
    using assms by (simp add: tc_vertex_def Let_def)
next
  fix Ps S'
  assume a: "TransitionCase M (t_index T) (t_tier T) (t_state T) (t_symbol T) = ok S
              \<and> vertex_calls M T S Ps = ok S'"
  then have "S = {}" using assms(1) by (auto simp: TransitionCase_def split: option.splits)
  then have m: "members_of T S" by (simp add: members_of_def)
  from vertex_calls_grow [of M T S Ps S'] a assms(1) m
  have g: "S \<subseteq> S'" and m': "members_of T S'" by simp_all
  show "S \<subseteq> S'" by (rule g)
  show "\<forall>x\<in>S'. \<forall>y\<in>S'. v_pred x = v_pred y \<longrightarrow> x = y"
    using members_of_inj [OF m'] by blast
qed

definition ex_T :: tcase where
  "ex_T = \<lparr>t_index = 0, t_tier = 1, t_state = ''q'', t_symbol = ''a''\<rparr>"

definition ex_P :: tcase where
  "ex_P = \<lparr>t_index = 0, t_tier = 0, t_state = ''q'', t_symbol = ''a''\<rparr>"

definition ex_v :: vertex where
  "ex_v = \<lparr>v_index = 0, v_tier = 1, v_state = ''q'', v_symbol = ''a'', v_pred = Some (''q'', ''a'')\<rparr>"

theorem vertex_deduplication_witness:
  "tc_vertex ex_env ex_T {} (Some ex_P) = ok (Some ex_v, {ex_v})
   \<and> tc_vertex ex_env ex_T {ex_v} (Some ex_P) = ok (Some ex_v, {ex_v})
   \<and> TransitionCase ex_env 0 1 ''q'' ''a'' = ok {}
   \<and> vertex_calls ex_env ex_T {} [ex_P, ex_P] = ok {ex_v}"
proof -
  have t: "0 < t_tier ex_T" "t_index ex_P = t_index ex_T" "t_tier ex_P + 1 = t_tier ex_T"
    by (simp_all add: ex_T_def ex_P_def)
  have c: "TransitionCase ex_env 0 1 ''q'' ''a'' = ok {}"
    by (simp add: TransitionCase_def ex_env_def)
  have v: "tc_vertex ex_env ex_T {} (Some ex_P) = ok (Some ex_v, {ex_v})"
    by (simp add: tc_vertex_def ex_T_def ex_P_def ex_v_def Let_def)
  from vertex_deduplication [OF t t(2) t(3) refl refl, of ex_env "{}"] v
  have w: "tc_vertex ex_env ex_T {ex_v} (Some ex_P) = ok (Some ex_v, {ex_v})"
    by auto
  have s: "vertex_calls ex_env ex_T {} [ex_P, ex_P] = ok {ex_v}"
    by (simp add: v w)
  from v w c s show ?thesis by simp
qed

section \<open>Precedents and succedents: claim C8\<close>

subsection \<open>Reading the vertex axis\<close>

lemma tc_view_states: "tc_view A i t q s = Some T \<Longrightarrow> q \<in> set (states_at A i t)"
  by (auto simp: tc_view_def states_at_def split: option.splits dest!: map_of_SomeD intro: rev_image_eqI)

lemma V_getitem_reg:
  assumes "V_getitem M A i t q s = ok (T, A')"
  shows "registered A' = registered A"
    and "set (states_at A' i' t') = (if i' = i \<and> t' = t then insert q (set (states_at A i t))
                                     else set (states_at A i' t'))"
proof -
  note g = V_getitem_okE[OF assms]
  have "registered A' i' t' q' s' = registered A i' t' q' s'" for i' t' q' s'
  proof (cases "i' = i \<and> t' = t \<and> q' = q \<and> s' = s")
    case True
    then show ?thesis using g(1) by (simp add: registered_def[of A'] g(2))
  next
    case False
    then show ?thesis by (auto simp: registered_def g(2))
  qed
  then show "registered A' = registered A" by (simp add: fun_eq_iff)
  show "set (states_at A' i' t') = (if i' = i \<and> t' = t then insert q (set (states_at A i t))
                                     else set (states_at A i' t'))"
    by (auto simp: g(5))
qed

lemma V_tier_view:
  "fst (V_tier A i t) = sd_view A i t"
  "sd_view (snd (V_tier A i t)) = sd_view A"
proof -
  define A1 where "A1 = snd (ca_getitem (\<lambda>j. []) A i)"
  define ta0 where "ta0 = tiers_view A i"
  have f: "fst (ca_getitem (\<lambda>j. []) A i) = ta0"
    by (simp add: ta0_def tiers_view_def ca_getitem_fst)
  have vt: "V_tier A i t = (tier_extend ta0 t ! t, ca_store A1 i (tier_extend ta0 t))"
    using f by (simp add: V_tier_def A1_def split_beta Let_def)
  have d: "isDefined A1 i" by (simp add: A1_def ca_getitem_defined)
  have tv: "tiers_view A1 j = tiers_view A j" for j
    by (simp add: A1_def tiers_view_def ca_view_getitem)
  show "fst (V_tier A i t) = sd_view A i t"
    by (auto simp: vt sd_view_def ta0_def[symmetric] tier_extend_def nth_append Let_def)
  have "sd_view (snd (V_tier A i t)) i' t' = sd_view A i' t'" for i' t'
    using sd_view_extend[of ta0 t t']
    by (auto simp: vt sd_view_def tiers_view_store[OF d] tv ta0_def[symmetric] Let_def)
  then show "sd_view (snd (V_tier A i t)) = sd_view A" by (simp add: fun_eq_iff)
qed

lemma V_tier_reg:
  "registered (snd (V_tier A i t)) = registered A"
  "states_at (snd (V_tier A i t)) = states_at A"
  by (simp_all add: fun_eq_iff registered_def tc_view_def states_at_def V_tier_view)

lemma filterR_pred_is:
  "filterR (pred_is T) xs = ok L \<Longrightarrow> L = filter (\<lambda>w. pred_case w = Some T) xs"
proof (induction xs arbitrary: L)
  case Nil
  then show ?case by simp
next
  case (Cons x xs)
  then show ?case
    by (auto simp: bindR_eq_ok pred_is_def split: option.splits)
qed

subsection \<open>ISuccedent and IPrecedent\<close>

lemma ISuccedent_loop:
  assumes "foldR (\<lambda>q (S, A).
              bindR (V_getitem M A i t q s) (\<lambda>(T, A1).
              bindR (filterR (pred_is P) (vorder M T)) (\<lambda>L.
              ok (S @ L, A1)))) qs (S0, A0) = ok (S, A1)"
    and "\<And>q. set (vorder M (registered A0 i t q s)) = registered A0 i t q s"
  shows "registered A1 = registered A0
       \<and> set S = set S0 \<union> {w. \<exists>q\<in>set qs. w \<in> registered A0 i t q s \<and> pred_case w = Some P}"
  using assms
proof (induction qs arbitrary: S0 A0)
  case Nil
  then show ?case by simp
next
  case (Cons q qs)
  from Cons.prems(1) obtain T A2 L where
    1: "V_getitem M A0 i t q s = ok (T, A2)"
    and 2: "filterR (pred_is P) (vorder M T) = ok L"
    and 3: "foldR (\<lambda>q (S, A).
              bindR (V_getitem M A i t q s) (\<lambda>(T, A1).
              bindR (filterR (pred_is P) (vorder M T)) (\<lambda>L.
              ok (S @ L, A1)))) qs (S0 @ L, A2) = ok (S, A1)"
    by (auto simp: bindR_eq_ok)
  have T: "T = registered A0 i t q s" by (rule V_getitem_okE(1)[OF 1])
  have r: "registered A2 = registered A0" by (rule V_getitem_reg(1)[OF 1])
  have L: "set L = {w. w \<in> registered A0 i t q s \<and> pred_case w = Some P}"
    using filterR_pred_is[OF 2] Cons.prems(2)[of q] by (auto simp: T)
  have "registered A1 = registered A2
       \<and> set S = set (S0 @ L) \<union> {w. \<exists>q\<in>set qs. w \<in> registered A2 i t q s \<and> pred_case w = Some P}"
    by (rule Cons.IH[OF 3]) (simp add: r Cons.prems(2))
  then show ?case using L by (auto simp: r)
qed

lemma ISuccedent_okE:
  assumes "ISuccedent M h G u = ok (S, h')"
    and "v_output M u = ok s"
    and "\<And>q. set (vorder M (reg h G (v_index u) (v_tier u + 1) q s))
               = reg h G (v_index u) (v_tier u + 1) q s"
  shows "reg h' G = reg h G"
    and "S = {w. \<exists>q. w \<in> reg h G (v_index u) (v_tier u + 1) q s
                   \<and> pred_case w = Some (transitionCase u)}"
proof -
  let ?A = "cells h (V G)"
  let ?i = "v_index u" and ?t = "v_tier u + 1"
  define sd where "sd = fst (V_tier ?A ?i ?t)"
  define A0 where "A0 = snd (V_tier ?A ?i ?t)"
  from assms(1,2) obtain L A1 where
    1: "foldR (\<lambda>q (S, A).
              bindR (V_getitem M A ?i ?t q s) (\<lambda>(T, A1).
              bindR (filterR (pred_is (transitionCase u)) (vorder M T)) (\<lambda>L.
              ok (S @ L, A1)))) (map fst sd) ([], A0) = ok (L, A1)"
    and S: "S = set L" and h': "h' = h\<lparr>cells := (cells h)(V G := A1)\<rparr>"
    by (auto simp: ISuccedent_def bindR_eq_ok sd_def A0_def split_beta Let_def)
  have r0: "registered A0 = registered ?A" "states_at A0 = states_at ?A"
    by (simp_all add: A0_def V_tier_reg)
  have qs: "map fst sd = states_at ?A ?i ?t"
    by (simp add: sd_def V_tier_view states_at_def)
  have en: "\<And>q. set (vorder M (registered A0 ?i ?t q s)) = registered A0 ?i ?t q s"
    using assms(3) by (simp add: r0 reg_def)
  from ISuccedent_loop[OF 1 en]
  have r1: "registered A1 = registered ?A"
    and L: "set L = {w. \<exists>q\<in>set (states_at ?A ?i ?t). w \<in> registered ?A ?i ?t q s
                        \<and> pred_case w = Some (transitionCase u)}"
    by (simp_all add: r0 qs)
  show "reg h' G = reg h G" by (simp add: reg_def h' r1)
  have st: "w \<in> registered ?A ?i ?t q s \<Longrightarrow> q \<in> set (states_at ?A ?i ?t)" for w q
    using tc_view_states[of ?A ?i ?t q s]
    by (auto simp: registered_def split: option.splits)
  show "S = {w. \<exists>q. w \<in> reg h G ?i ?t q s \<and> pred_case w = Some (transitionCase u)}"
    unfolding S L reg_def using st by blast
qed

lemma IPrecedent_okE:
  assumes "IPrecedent M h G w = ok ((T, P), h')"
  shows "reg h' G = reg h G"
    and "v_tier w = 0 \<Longrightarrow> T = None \<and> P = {}"
    and "v_tier w > 0 \<Longrightarrow> T = pred_case w
           \<and> (\<exists>q s. v_pred w = Some (q, s) \<and> P = reg h G (v_index w) (v_tier w - 1) q s)"
proof -
  show "v_tier w = 0 \<Longrightarrow> T = None \<and> P = {}"
    using assms by (auto simp: IPrecedent_def)
  show "reg h' G = reg h G"
    using assms
    by (auto simp: IPrecedent_def bindR_eq_ok reg_def last_state_def last_symbol_def
             split: if_splits option.splits dest: V_getitem_reg(1))
  show "v_tier w > 0 \<Longrightarrow> T = pred_case w
           \<and> (\<exists>q s. v_pred w = Some (q, s) \<and> P = reg h G (v_index w) (v_tier w - 1) q s)"
    using assms
    by (auto simp: IPrecedent_def bindR_eq_ok reg_def last_state_def last_symbol_def pred_case_def
             split: if_splits option.splits dest: V_getitem_okE(1))
qed

text \<open>
  Every member of the set of a transition case was put there by \<open>addVertex\<close> under
  its own index, tier, state and symbol, or is the floor vertex of the case.
\<close>

definition V_ok :: "vaxis \<Rightarrow> bool" where
  "V_ok A \<longleftrightarrow> (\<forall>i t q s. \<forall>w\<in>registered A i t q s.
      v_index w = i \<and> v_tier w = t \<and> v_state w = q \<and> v_symbol w = s)"

definition registered_vertex :: "heap \<Rightarrow> graph \<Rightarrow> vertex \<Rightarrow> bool" where
  "registered_vertex h G w \<longleftrightarrow> w \<in> reg h G (v_index w) (v_tier w) (v_state w) (v_symbol w)"

lemma V_ok_new: "V_ok CellArray"
  by (auto simp: V_ok_def registered_def tc_view_def sd_view_def tiers_view_def ca_view_def
                 CellArray_def isDefined_def floor_vertex_def Let_def split: option.splits if_splits)

lemma addVertex_V_ok:
  assumes "addVertex M h G v = ok h'" "V_ok (cells h (V G))"
  shows "V_ok (cells h' (V G))"
  using assms(2) unfolding V_ok_def addVertex_okE(3)[OF assms(1)] by auto

lemma addEdge_V:
  assumes "addEdge M h G (u, v) = ok (h', G')" "E_ok G"
  shows "V G' = V G"
    and "V_ok (cells h (V G)) \<Longrightarrow> V_ok (cells h' (V G))"
    and "reg h' G i t q s \<subseteq> reg h G i t q s \<union> {u, v}"
    and "reg h G i t q s \<subseteq> reg h' G i t q s"
    and "\<not> has G (u, v) \<Longrightarrow> registered_vertex h' G u \<and> registered_vertex h' G v"
proof -
  note a = addEdge_okE[OF assms]
  show "V G' = V G"
    using a by (cases "has G (u, v)") (auto simp: sim_def same_rest_def)
  have c: "(has G (u, v) \<and> h' = h) \<or> (\<not> has G (u, v) \<and> (\<exists>h1. addVertex M h G u = ok h1 \<and> addVertex M h1 G v = ok h'))"
    using a by (cases "has G (u, v)") auto
  show "V_ok (cells h (V G)) \<Longrightarrow> V_ok (cells h' (V G))"
    using c by (auto dest: addVertex_V_ok)
  show "reg h' G i t q s \<subseteq> reg h G i t q s \<union> {u, v}"
    using c by (auto simp: reg_def addVertex_okE(3) split: if_splits)
  show "reg h G i t q s \<subseteq> reg h' G i t q s"
    using c by (auto simp: reg_def addVertex_okE(3) split: if_splits)
  show "\<not> has G (u, v) \<Longrightarrow> registered_vertex h' G u \<and> registered_vertex h' G v"
    using c by (auto simp: registered_vertex_def reg_def addVertex_okE(3))
qed

fun mutation_vertices :: "mutation list \<Rightarrow> vertex set" where
  "mutation_vertices [] = {}"
| "mutation_vertices (AddEdge (u, v) # ms) = {u, v} \<union> mutation_vertices ms"
| "mutation_vertices (RemoveEdge e # ms) = mutation_vertices ms"

lemma mutate_V:
  assumes "mutate M h G ms = ok (h', G')" "wf_graph G"
  shows "V G' = V G \<and> (V_ok (cells h (V G)) \<longrightarrow> V_ok (cells h' (V G)))
       \<and> reg h' G i t q s \<subseteq> reg h G i t q s \<union> mutation_vertices ms"
  using assms
proof (induction ms arbitrary: h G)
  case Nil
  then show ?case by simp
next
  case (Cons m ms)
  show ?case
  proof (cases m)
    case (AddEdge e)
    obtain u v where e: "e = (u, v)" by (cases e)
    from Cons.prems(1) AddEdge obtain h1 G1 where
      1: "addEdge M h G (u, v) = ok (h1, G1)" and 2: "mutate M h1 G1 ms = ok (h', G')"
      by (auto simp: bindR_eq_ok e)
    have E: "E_ok G" using Cons.prems(2) by (simp add: wf_graph_def)
    note a = addEdge_V[OF 1 E]
    have w: "wf_graph G1" using addEdge_wf[OF 1 Cons.prems(2)] by simp
    have r: "reg h G1 = reg h G" "reg h1 G1 = reg h1 G" "reg h' G1 = reg h' G"
      by (simp_all add: reg_def a(1))
    from Cons.IH[OF 2 w] a(2) a(3)[of i t q s] show ?thesis
      by (auto simp: AddEdge e a(1) r)
  next
    case (RemoveEdge e)
    obtain u v where e: "e = (u, v)" by (cases e)
    from Cons.prems(1) RemoveEdge obtain G1 where
      1: "removeEdge G (u, v) = ok G1" and 2: "mutate M h G1 ms = ok (h', G')"
      by (auto simp: bindR_eq_ok e)
    from removeEdge_wf[OF 1 Cons.prems(2)]
    have w: "wf_graph G1" and v: "V G1 = V G" by (simp_all add: same_rest_def)
    have r: "reg h G1 = reg h G" "reg h' G1 = reg h' G"
      by (simp_all add: reg_def v)
    from Cons.IH[OF 2 w] show ?thesis
      by (auto simp: RemoveEdge v r)
  qed
qed

subsection \<open>Vertices as the simulation builds them\<close>

text \<open>
  A vertex above tier 0 is built by \<open>V[i][t+1][q][P.output].vertex(P)\<close>, where \<open>P\<close>
  is the transition case of the vertex below it (\<open>ISuccessorWith\<close> and
  \<open>GetNextEdgesAbovePreds\<close> in simulateAllCertificatePoly.py): its symbol is the
  symbol that its recorded predecessor writes.
\<close>

definition writes_symbol :: "env \<Rightarrow> vertex \<Rightarrow> bool" where
  "writes_symbol M w \<longleftrightarrow> (case v_pred w of None \<Rightarrow> True
     | Some (q, s) \<Rightarrow> (case delta M q s of None \<Rightarrow> False
                        | Some (q', s', d) \<Rightarrow> v_symbol w = s'))"

definition symbols_written :: "env \<Rightarrow> heap \<Rightarrow> graph \<Rightarrow> bool" where
  "symbols_written M h G \<longleftrightarrow> (\<forall>i t q s. \<forall>w\<in>reg h G i t q s. writes_symbol M w)"

lemma mutate_symbols_written:
  assumes "mutate M h G ms = ok (h', G')" "wf_graph G" "symbols_written M h G"
    and "\<forall>w\<in>mutation_vertices ms. writes_symbol M w"
  shows "symbols_written M h' G'"
proof -
  have V: "V G' = V G" using mutate_V[OF assms(1,2)] by simp
  have "writes_symbol M w" if "w \<in> reg h' G' i t q s" for i t q s w
  proof -
    from that have "w \<in> reg h' G i t q s" by (simp add: reg_def V)
    with mutate_V[OF assms(1,2), of i t q s]
    have "w \<in> reg h G i t q s \<or> w \<in> mutation_vertices ms" by blast
    then show ?thesis using assms(3,4) unfolding symbols_written_def by blast
  qed
  then show ?thesis unfolding symbols_written_def by blast
qed

definition up :: vertex where
  "up = \<lparr>v_index = 0, v_tier = 1, v_state = ''q'', v_symbol = ''a'', v_pred = Some (''q'', ''a'')\<rparr>"

definition tier_env :: env where
  "tier_env = \<lparr>delta = (\<lambda>q s. Some (q, s, 1)), symbols = {''a''},
     vorder = order_by [fl 0, fl 1, up],
     eorder = order_by [(fl 0, fl 1), (fl 1, up)]\<rparr>"

definition tier_graph :: "mutation list" where
  "tier_graph = [AddEdge (fl 0, fl 1), AddEdge (fl 1, up)]"

text \<open>
  Claim C8.  On a vertex axis filled by \<open>addVertex\<close> with vertices built as above,
  \<open>ISuccedent(u)\<close> is the set of the registered vertices at tier \<open>tier(u) + 1\<close> and the
  index of \<open>u\<close> whose recorded predecessor is the transition case of \<open>u\<close>, and the call
  leaves the registered vertices as they are.  For registered \<open>u\<close> and \<open>w\<close>, \<open>w\<close> is in
  \<open>ISuccedent(u)\<close> if and only if \<open>u\<close> is in \<open>IPrecedent(w)\<close>; \<open>IPrecedent\<close> is empty on
  tier 0.
\<close>

theorem succedent_precedent:
  assumes "V_ok (cells h (V G))"
    and "symbols_written M h G"
    and "v_output M u = ok s"
    and "ISuccedent M h G u = ok (S, h1)"
    and "\<And>q. set (vorder M (reg h G (v_index u) (v_tier u + 1) q s))
               = reg h G (v_index u) (v_tier u + 1) q s"
  shows "S = {w. registered_vertex h G w \<and> v_index w = v_index u \<and> v_tier w = v_tier u + 1
                 \<and> pred_case w = Some (transitionCase u)}
       \<and> reg h1 G = reg h G
       \<and> (\<forall>w T P h2. IPrecedent M h1 G w = ok ((T, P), h2) \<and> registered_vertex h G u
              \<and> registered_vertex h G w \<longrightarrow> (w \<in> S \<longleftrightarrow> u \<in> P))
       \<and> (\<forall>w. v_tier w = 0 \<longrightarrow> IPrecedent M h1 G w = ok ((None, {}), h1))"
proof -
  note s = ISuccedent_okE[OF assms(4) assms(3) assms(5)]
  have key: "\<And>i t q s w. w \<in> reg h G i t q s
      \<Longrightarrow> v_index w = i \<and> v_tier w = t \<and> v_state w = q \<and> v_symbol w = s"
    using assms(1) by (simp add: V_ok_def reg_def)
  have sym: "v_symbol w = s"
    if rw: "registered_vertex h G w" and pc: "pred_case w = Some (transitionCase u)" for w
  proof -
    from rw assms(2) have "writes_symbol M w"
      unfolding registered_vertex_def symbols_written_def by blast
    moreover from pc have "v_pred w = Some (v_state u, v_symbol u)"
      by (auto simp: pred_case_def transitionCase_def split: option.splits)
    ultimately show ?thesis using assms(3)
      by (auto simp: writes_symbol_def v_output_def split: option.splits)
  qed
  have S: "S = {w. registered_vertex h G w \<and> v_index w = v_index u \<and> v_tier w = v_tier u + 1
                 \<and> pred_case w = Some (transitionCase u)}"
  proof (rule set_eqI, rule iffI)
    fix w assume "w \<in> S"
    then obtain q where q: "w \<in> reg h G (v_index u) (v_tier u + 1) q s"
      and pc: "pred_case w = Some (transitionCase u)"
      unfolding s(2) by blast
    from key[OF q] q pc
    show "w \<in> {w. registered_vertex h G w \<and> v_index w = v_index u \<and> v_tier w = v_tier u + 1
                 \<and> pred_case w = Some (transitionCase u)}"
      by (simp add: registered_vertex_def)
  next
    fix w assume a: "w \<in> {w. registered_vertex h G w \<and> v_index w = v_index u \<and> v_tier w = v_tier u + 1
                 \<and> pred_case w = Some (transitionCase u)}"
    then have rw: "registered_vertex h G w" and pc: "pred_case w = Some (transitionCase u)"
      by simp_all
    from sym[OF rw pc] a have "w \<in> reg h G (v_index u) (v_tier u + 1) (v_state w) s"
      by (auto simp: registered_vertex_def)
    with pc show "w \<in> S" unfolding s(2) by blast
  qed
  have inv: "w \<in> S \<longleftrightarrow> u \<in> P"
    if p: "IPrecedent M h1 G w = ok ((T, P), h2)" and ru: "registered_vertex h G u"
      and rw: "registered_vertex h G w" for w T P h2
  proof (cases "v_tier w = 0")
    case True
    then show ?thesis using IPrecedent_okE(2)[OF p] by (simp add: S)
  next
    case False
    then obtain q' s' where pw: "v_pred w = Some (q', s')"
      and P: "P = reg h G (v_index w) (v_tier w - 1) q' s'"
      using IPrecedent_okE(3)[OF p] by (auto simp: s(1))
    have pc: "pred_case w = Some \<lparr>t_index = v_index w, t_tier = v_tier w - 1, t_state = q', t_symbol = s'\<rparr>"
      by (simp add: pred_case_def pw)
    show ?thesis
    proof
      assume "w \<in> S"
      then have "pred_case w = Some (transitionCase u)" by (simp add: S)
      then have "v_index w = v_index u" "v_tier w - 1 = v_tier u" "q' = v_state u" "s' = v_symbol u"
        by (simp_all add: pc transitionCase_def)
      then show "u \<in> P" using ru by (simp add: P registered_vertex_def)
    next
      assume "u \<in> P"
      from key[OF this[unfolded P]] False
      have "pred_case w = Some (transitionCase u)" "v_index w = v_index u" "v_tier w = v_tier u + 1"
        by (simp_all add: pc transitionCase_def)
      then show "w \<in> S" using rw by (simp add: S)
    qed
  qed
  have inv': "\<forall>w T P h2. IPrecedent M h1 G w = ok ((T, P), h2) \<and> registered_vertex h G u
              \<and> registered_vertex h G w \<longrightarrow> (w \<in> S \<longleftrightarrow> u \<in> P)"
    using inv by blast
  have fl': "\<forall>w. v_tier w = 0 \<longrightarrow> IPrecedent M h1 G w = ok ((None, {}), h1)"
    by (simp add: IPrecedent_def)
  show ?thesis
    apply (intro conjI)
       apply (rule S)
      apply (rule s(1))
     apply (rule inv')
    apply (rule fl')
    done
qed

lemma reg_new: "reg ex_h ex_G i t q s = (if t = 0 then {floor_vertex i q s} else {})"
  by (auto simp: reg_def DynamicComputationGraph_def ex_heap_def registered_def tc_view_def
        sd_view_def tiers_view_def ca_view_def CellArray_def isDefined_def)

lemma is_ok_bindE:
  assumes "is_ok (bindR m f)"
  shows "\<exists>x. m = ok x \<and> is_ok (f x)"
proof -
  from is_okE[OF assms] obtain y where "bindR m f = ok y" by blast
  then obtain x where "m = ok x" "f x = ok y" unfolding bindR_eq_ok by blast
  then show ?thesis by (auto simp: is_ok_def)
qed

lemma is_ok_ifE: "is_ok (if c then ok x else raise e) \<Longrightarrow> c"
  by (cases c) (simp_all add: is_ok_def)

theorem succedent_precedent_witness:
  "\<exists>h G S h1 P h2. mutate tier_env ex_h ex_G tier_graph = ok (h, G)
     \<and> ISuccedent tier_env h G (fl 0) = ok (S, h1)
     \<and> IPrecedent tier_env h1 G up = ok ((Some (transitionCase (fl 0)), P), h2)
     \<and> S = {w. registered_vertex h G w \<and> v_index w = v_index (fl 0) \<and> v_tier w = v_tier (fl 0) + 1
                 \<and> pred_case w = Some (transitionCase (fl 0))}
     \<and> up \<in> S \<and> fl 0 \<in> P"
proof -
  have "is_ok (bindR (mutate tier_env ex_h ex_G tier_graph) (\<lambda>hG.
     bindR (ISuccedent tier_env (fst hG) (snd hG) (fl 0)) (\<lambda>Sh.
     bindR (IPrecedent tier_env (snd Sh) (snd hG) up) (\<lambda>TP.
     if fst (fst TP) = Some (transitionCase (fl 0)) \<and> registered_vertex (fst hG) (snd hG) (fl 0)
        \<and> registered_vertex (fst hG) (snd hG) up \<and> up \<in> fst Sh
     then ok TP else raise ValueError))))"
    by code_simp
  from is_ok_bindE[OF this] obtain hG where m0: "mutate tier_env ex_h ex_G tier_graph = ok hG"
    and 1: "is_ok (bindR (ISuccedent tier_env (fst hG) (snd hG) (fl 0)) (\<lambda>Sh.
     bindR (IPrecedent tier_env (snd Sh) (snd hG) up) (\<lambda>TP.
     if fst (fst TP) = Some (transitionCase (fl 0)) \<and> registered_vertex (fst hG) (snd hG) (fl 0)
        \<and> registered_vertex (fst hG) (snd hG) up \<and> up \<in> fst Sh
     then ok TP else raise ValueError)))"
    by blast
  from is_ok_bindE[OF 1]
  obtain Sh where i0: "ISuccedent tier_env (fst hG) (snd hG) (fl 0) = ok Sh"
    and 2: "is_ok (bindR (IPrecedent tier_env (snd Sh) (snd hG) up) (\<lambda>TP.
     if fst (fst TP) = Some (transitionCase (fl 0)) \<and> registered_vertex (fst hG) (snd hG) (fl 0)
        \<and> registered_vertex (fst hG) (snd hG) up \<and> up \<in> fst Sh
     then ok TP else raise ValueError))"
    by blast
  from is_ok_bindE[OF 2]
  obtain TP where p0: "IPrecedent tier_env (snd Sh) (snd hG) up = ok TP"
    and 3: "is_ok (if fst (fst TP) = Some (transitionCase (fl 0)) \<and> registered_vertex (fst hG) (snd hG) (fl 0)
        \<and> registered_vertex (fst hG) (snd hG) up \<and> up \<in> fst Sh
     then ok TP else raise ValueError)"
    by blast
  define h where "h = fst hG"
  define G where "G = snd hG"
  define S where "S = fst Sh"
  define h1 where "h1 = snd Sh"
  define T where "T = fst (fst TP)"
  define P where "P = snd (fst TP)"
  define h2 where "h2 = snd TP"
  have hG: "hG = (h, G)" and Sh: "Sh = (S, h1)" and TP: "TP = ((T, P), h2)"
    by (simp_all add: h_def G_def S_def h1_def T_def P_def h2_def)
  have c: "T = Some (transitionCase (fl 0)) \<and> registered_vertex h G (fl 0)
        \<and> registered_vertex h G up \<and> up \<in> S"
    using is_ok_ifE[OF 3] by (simp add: h_def G_def S_def T_def)
  note i0 = i0[folded h_def G_def]
  note p0 = p0[folded h1_def G_def]
  have m: "mutate tier_env ex_h ex_G tier_graph = ok (h, G)" using m0 hG by simp
  have i: "ISuccedent tier_env h G (fl 0) = ok (S, h1)" using i0 Sh by simp
  have p: "IPrecedent tier_env h1 G up = ok ((Some (transitionCase (fl 0)), P), h2)"
    using p0 TP c by simp
  have w: "wf_graph ex_G" by (rule wf_graph_new)
  have o: "V_ok (cells ex_h (V ex_G))"
    by (simp add: DynamicComputationGraph_def V_ok_new)
  have V: "V G = V ex_G" using mutate_V[OF m w] by simp
  have rg: "reg h G = reg h ex_G" by (simp add: reg_def V)
  have ok: "V_ok (cells h (V G))" using mutate_V[OF m w] o V by simp
  have mv: "mutation_vertices tier_graph = {fl 0, fl 1, up}"
    by (auto simp: tier_graph_def)
  have sub: "reg h G i t q s \<subseteq> (if t = 0 then {floor_vertex i q s} else {}) \<union> {fl 0, fl 1, up}" for i t q s
    using mutate_V[OF m w, of i t q s] by (simp add: rg reg_new mv)
  have "writes_symbol tier_env x" if "x \<in> reg h G i t q s" for i t q s x
  proof -
    from sub[of i t q s] that have "x = floor_vertex i q s \<or> x = fl 0 \<or> x = fl 1 \<or> x = up"
      by (auto split: if_splits)
    then show ?thesis
      by (auto simp: writes_symbol_def floor_vertex_def fl_def up_def tier_env_def)
  qed
  then have ws: "symbols_written tier_env h G"
    unfolding symbols_written_def by blast
  have out: "v_output tier_env (fl 0) = ok ''a''"
    by (simp add: v_output_def tier_env_def fl_def)
  have vo: "set (vorder tier_env X) = X \<inter> {fl 0, fl 1, up}" for X
    by (auto simp: tier_env_def order_by_def)
  have en: "set (vorder tier_env (reg h G (v_index (fl 0)) (v_tier (fl 0) + 1) q ''a''))
               = reg h G (v_index (fl 0)) (v_tier (fl 0) + 1) q ''a''" for q
    using sub[of "v_index (fl 0)" "v_tier (fl 0) + 1" q "''a''"]
    unfolding vo by auto
  note t = succedent_precedent[OF ok ws out i en]
  have S: "S = {w. registered_vertex h G w \<and> v_index w = v_index (fl 0) \<and> v_tier w = v_tier (fl 0) + 1
                 \<and> pred_case w = Some (transitionCase (fl 0))}"
    using t by (rule conjunct1)
  have "up \<in> S \<longleftrightarrow> fl 0 \<in> P"
    using t[THEN conjunct2, THEN conjunct2, THEN conjunct1, rule_format,
            of up "Some (transitionCase (fl 0))" P h2] p c
    by simp
  then have "fl 0 \<in> P" using c by simp
  show ?thesis
    apply (rule exI[of _ h], rule exI[of _ G], rule exI[of _ S], rule exI[of _ h1],
           rule exI[of _ P], rule exI[of _ h2])
    apply (intro conjI)
         apply (rule m)
        apply (rule i)
       apply (rule p)
      apply (rule S)
     apply (simp add: c)
    apply (rule \<open>fl 0 \<in> P\<close>)
    done
qed

section \<open>What the queries do\<close>

subsection \<open>Loops that keep an invariant\<close>

lemma foldR_inv:
  assumes "foldR f xs s = ok s'" "I s"
    and "\<And>x s s'. x \<in> set xs \<Longrightarrow> I s \<Longrightarrow> f x s = ok s' \<Longrightarrow> I s'"
  shows "I s'"
  using assms
proof (induction xs arbitrary: s)
  case Nil
  then show ?case by simp
next
  case (Cons x xs)
  from Cons.prems(1) obtain s1 where 1: "f x s = ok s1" and 2: "foldR f xs s1 = ok s'"
    by (auto simp: bindR_eq_ok)
  have "I s1" using Cons.prems(3)[of x s s1] Cons.prems(2) 1 by simp
  show ?case
  proof (rule Cons.IH[OF 2 \<open>I s1\<close>])
    fix y t t' assume "y \<in> set xs" "I t" "f y t = ok t'"
    then show "I t'" using Cons.prems(3)[of y t t'] by simp
  qed
qed

lemma sim_lists: "sim G G' \<Longrightarrow> lists_at G' = lists_at G"
  by (simp add: sim_def)

lemma sim_wf_iff: "sim G G' \<Longrightarrow> wf_graph G \<Longrightarrow> wf_graph G' \<and> (\<forall>e. has G' e = has G e)"
  using sim_wf sim_has by blast

subsection \<open>Adjacency queries\<close>

lemma incomingEdgeOf_okE:
  assumes "incomingEdgeOf G v = ok (es, G')" "wf_graph G"
  shows "sim G G'" and "\<forall>e\<in>set es. has G e \<and> snd e = v"
proof -
  have E: "E_ok G" using assms(2) by (simp add: wf_graph_def)
  from assms(1) obtain l1 G1 l2 where
    1: "E_at G (v_index v) v = ok (l1, G1)" and 2: "E_at G1 (v_index v - 1) v = ok (l2, G')"
    and es: "es = map (\<lambda>w. (w, v)) (right_incoming l1 @ left_incoming l2)"
    by (auto simp: incomingEdgeOf_def bindR_eq_ok)
  from E_at_okE[OF 1 E] have l1: "l1 = lists_at G (v_index v) v" and s1: "sim G G1" by simp_all
  from E_at_okE[OF 2 sim_E_ok[OF s1]] have l2: "l2 = lists_at G1 (v_index v - 1) v" and s2: "sim G1 G'"
    by simp_all
  show "sim G G'" using s1 s2 by (rule sim_trans)
  have wl: "wf_lists (lists_at G)" using assms(2) by (simp add: wf_graph_def)
  have l2': "l2 = lists_at G (v_index v - 1) v" using l2 sim_lists[OF s1] by simp
  show "\<forall>e\<in>set es. has G e \<and> snd e = v"
  proof
    fix e assume "e \<in> set es"
    then obtain w where e: "e = (w, v)"
      and w: "w \<in> set (right_incoming l1) \<or> w \<in> set (left_incoming l2)"
      by (auto simp: es)
    from w have "has G (w, v)"
    proof
      assume "w \<in> set (right_incoming l1)"
      then have "v_index w = v_index v + 1 \<and> w \<in> set (right_incoming (lists_at G (v_index v) v))"
        using wf_listsD(2)[OF wl, of w "v_index v" v] by (simp add: l1)
      then show ?thesis by (simp add: has_wf[OF assms(2)])
    next
      assume "w \<in> set (left_incoming l2)"
      then have "v_index w = v_index v - 1 \<and> v \<in> set (right_outgoing (lists_at G (v_index v - 1) w))"
        using wf_listsD(3)[OF wl, of w "v_index v - 1" v] by (simp add: l2')
      then show ?thesis by (simp add: has_wf[OF assms(2)])
    qed
    then show "has G e \<and> snd e = v" by (simp add: e)
  qed
qed

lemma outgoingEdgeOf_okE:
  assumes "outgoingEdgeOf G v = ok (es, G')" "wf_graph G"
  shows "sim G G'" and "\<forall>e\<in>set es. has G e \<and> fst e = v"
proof -
  have E: "E_ok G" using assms(2) by (simp add: wf_graph_def)
  from assms(1) obtain l1 G1 l2 where
    1: "E_at G (v_index v) v = ok (l1, G1)" and 2: "E_at G1 (v_index v - 1) v = ok (l2, G')"
    and es: "es = map (\<lambda>w. (v, w)) (right_outgoing l1 @ left_outgoing l2)"
    by (auto simp: outgoingEdgeOf_def bindR_eq_ok)
  from E_at_okE[OF 1 E] have l1: "l1 = lists_at G (v_index v) v" and s1: "sim G G1" by simp_all
  from E_at_okE[OF 2 sim_E_ok[OF s1]] have l2: "l2 = lists_at G1 (v_index v - 1) v" and s2: "sim G1 G'"
    by simp_all
  show "sim G G'" using s1 s2 by (rule sim_trans)
  have wl: "wf_lists (lists_at G)" using assms(2) by (simp add: wf_graph_def)
  have l2': "l2 = lists_at G (v_index v - 1) v" using l2 sim_lists[OF s1] by simp
  show "\<forall>e\<in>set es. has G e \<and> fst e = v"
  proof
    fix e assume "e \<in> set es"
    then obtain w where e: "e = (v, w)"
      and w: "w \<in> set (right_outgoing l1) \<or> w \<in> set (left_outgoing l2)"
      by (auto simp: es)
    from w have "has G (v, w)"
    proof
      assume "w \<in> set (right_outgoing l1)"
      then have "v_index w = v_index v + 1 \<and> w \<in> set (right_outgoing (lists_at G (v_index v) v))"
        using wf_listsD(1)[OF wl, of w "v_index v" v] by (simp add: l1)
      then show ?thesis by (simp add: has_wf[OF assms(2)])
    next
      assume "w \<in> set (left_outgoing l2)"
      then have "v_index w = v_index v - 1 \<and> v \<in> set (right_incoming (lists_at G (v_index v - 1) w))"
        using wf_listsD(4)[OF wl, of w "v_index v - 1" v] by (simp add: l2')
      then show ?thesis by (simp add: has_wf[OF assms(2)])
    qed
    then show "has G e \<and> fst e = v" by (simp add: e)
  qed
qed

lemma getNextEdges_okE:
  assumes "getNextEdges G e = ok (es, G')" "wf_graph G"
  shows "sim G G'" and "\<forall>f\<in>set es. has G f \<and> fst f = snd e"
  using outgoingEdgeOf_okE[of G "snd e" es G'] assms by (simp_all add: getNextEdges_def)

lemma getPrevEdges_okE:
  assumes "getPrevEdges G e = ok (es, G')" "wf_graph G"
  shows "sim G G'" and "\<forall>f\<in>set es. has G f \<and> snd f = fst e"
  using incomingEdgeOf_okE[of G "fst e" es G'] assms by (simp_all add: getPrevEdges_def)

lemma isFoldingNode_okE:
  assumes "isFoldingNode G v = ok (b, G')" "E_ok G"
  shows "sim G G'"
proof -
  from assms(1) obtain l1 G1 where 1: "E_at G (v_index v - 1) v = ok (l1, G1)"
    and r: "(if left_incoming l1 \<noteq> [] \<and> left_outgoing l1 \<noteq> [] then ok (True, G1)
             else bindR (E_at G1 (v_index v) v) (\<lambda>(l2, G2).
               ok (right_incoming l2 \<noteq> [] \<and> right_outgoing l2 \<noteq> [], G2))) = ok (b, G')"
    by (auto simp: isFoldingNode_def bindR_eq_ok)
  from E_at_okE[OF 1 assms(2)] have s1: "sim G G1" by simp
  show ?thesis
  proof (cases "left_incoming l1 \<noteq> [] \<and> left_outgoing l1 \<noteq> []")
    case True
    then show ?thesis using r s1 by simp
  next
    case False
    with r obtain l2 where 2: "E_at G1 (v_index v) v = ok (l2, G')"
      by (auto simp: bindR_eq_ok)
    from E_at_okE[OF 2 sim_E_ok[OF s1]] have "sim G1 G'" by simp
    with s1 show ?thesis by (rule sim_trans)
  qed
qed

lemma isSplittingEdge_okE:
  assumes "isSplittingEdge G e = ok (b, G')" "E_ok G"
  shows "sim G G'"
proof -
  obtain u v where e: "e = (u, v)" by (cases e)
  from assms(1) obtain b1 G1 where 1: "hasEdge G e = ok (b1, G1)"
    and r: "(if \<not> b1 then raise AssertionError
       else let (u, v) = e in
       if v_index u < v_index v
       then bindR (E_at G1 (v_index u) u) (\<lambda>(l, G2). ok (length (right_outgoing l) > 1, G2))
       else bindR (E_at G1 (v_index v) u) (\<lambda>(l, G2). ok (length (left_outgoing l) > 1, G2))) = ok (b, G')"
    by (auto simp: isSplittingEdge_def bindR_eq_ok)
  from hasEdge_okE[OF 1 assms(2)] have s1: "sim G G1" by simp
  from r obtain i l where "E_at G1 i u = ok (l, G')"
    by (auto simp: e bindR_eq_ok split: if_splits)
  from E_at_okE[OF this sim_E_ok[OF s1]] have "sim G1 G'" by simp
  with s1 show ?thesis by (rule sim_trans)
qed

lemma isMergingEdge_okE:
  assumes "isMergingEdge G e = ok (b, G')" "E_ok G"
  shows "sim G G'"
proof -
  obtain u v where e: "e = (u, v)" by (cases e)
  from assms(1) obtain b1 G1 where 1: "hasEdge G e = ok (b1, G1)"
    and r: "(if \<not> b1 then raise AssertionError
       else let (u, v) = e in
       if v_index u < v_index v
       then bindR (E_at G1 (v_index u) v) (\<lambda>(l, G2). ok (length (left_incoming l) > 1, G2))
       else bindR (E_at G1 (v_index v) v) (\<lambda>(l, G2). ok (length (right_incoming l) > 1, G2))) = ok (b, G')"
    by (auto simp: isMergingEdge_def bindR_eq_ok)
  from hasEdge_okE[OF 1 assms(2)] have s1: "sim G G1" by simp
  from r obtain i l where "E_at G1 i v = ok (l, G')"
    by (auto simp: e bindR_eq_ok split: if_splits)
  from E_at_okE[OF this sim_E_ok[OF s1]] have "sim G1 G'" by simp
  with s1 show ?thesis by (rule sim_trans)
qed

subsection \<open>Counting and collecting precedents and succedents\<close>

lemma count_loop_sim:
  assumes "foldR (\<lambda>p (cnt, G1).
               bindR (E_at G1 i p) (\<lambda>(l, G2).
               bindR (E_at G2 i p) (\<lambda>(l', G3).
               ok (cnt + f l + g l', G3)))) ps (c, G0) = ok (n, G')"
    and "sim G G0"
  shows "sim G G'"
proof -
  have "sim G (snd (n, G'))"
  proof (rule foldR_inv[OF assms(1), where I = "\<lambda>s. sim G (snd s)"])
    show "sim G (snd (c, G0))" using assms(2) by simp
  next
    fix x s s'
    assume I: "sim G (snd s)"
      and st: "(case s of (cnt, G1) \<Rightarrow>
               bindR (E_at G1 i x) (\<lambda>(l, G2).
               bindR (E_at G2 i x) (\<lambda>(l', G3).
               ok (cnt + f l + g l', G3)))) = ok s'"
    obtain cnt G1 where s: "s = (cnt, G1)" by (cases s)
    from st obtain l G2 l' G3 where 1: "E_at G1 i x = ok (l, G2)" and 2: "E_at G2 i x = ok (l', G3)"
      and s': "s' = (cnt + f l + g l', G3)"
      by (auto simp: s bindR_eq_ok)
    have E1: "E_ok G1" using I s sim_E_ok by auto
    from E_at_okE[OF 1 E1] have s1: "sim G1 G2" by simp
    from E_at_okE[OF 2 sim_E_ok[OF s1]] have s2: "sim G2 G3" by simp
    show "sim G (snd s')" using I s s1 s2 s' by (auto intro: sim_trans)
  qed
  then show ?thesis by simp
qed

lemma CountIPrecedents_okE:
  assumes "CountIPrecedents M h G e = ok (n, h', G')" "E_ok G"
  shows "sim G G'"
proof -
  let ?i = "min (v_index (fst e)) (v_index (snd e))"
  from assms(1) obtain Es G0 T P h1 where 1: "E_getitem G ?i = ok (Es, G0)"
    and 2: "IPrecedent M h G0 (snd e) = ok ((T, P), h1)"
    and 3: "foldR (\<lambda>p (cnt, G1).
               bindR (E_at G1 ?i p) (\<lambda>(l, G2).
               bindR (E_at G2 ?i p) (\<lambda>(l', G3).
               ok (cnt + length (right_outgoing l) + length (left_outgoing l'), G3))))
             (vorder M P) (0, G0) = ok (n, G')"
    by (auto simp: CountIPrecedents_def Let_def bindR_eq_ok)
  from E_getitem_okE[OF 1 assms(2)] have "sim G G0" by simp
  from count_loop_sim[OF 3 this] show ?thesis .
qed

lemma CountISuccedents_okE:
  assumes "CountISuccedents M h G e = ok (n, h', G')" "E_ok G"
  shows "sim G G'"
proof -
  let ?i = "min (v_index (fst e)) (v_index (snd e))"
  from assms(1) obtain Es G0 S h1 where 1: "E_getitem G ?i = ok (Es, G0)"
    and 2: "ISuccedent M h G0 (fst e) = ok (S, h1)"
    and 3: "foldR (\<lambda>s (cnt, G1).
               bindR (E_at G1 ?i s) (\<lambda>(l, G2).
               bindR (E_at G2 ?i s) (\<lambda>(l', G3).
               ok (cnt + length (left_incoming l) + length (right_incoming l'), G3))))
             (vorder M S) (0, G0) = ok (n, G')"
    by (auto simp: CountISuccedents_def Let_def bindR_eq_ok)
  from E_getitem_okE[OF 1 assms(2)] have "sim G G0" by simp
  from count_loop_sim[OF 3 this] show ?thesis .
qed

lemma GetIPrecedents_okE:
  assumes "GetIPrecedents M h G e = ok (P, h', G')" "wf_graph G"
  shows "sim G G'" and "\<forall>f\<in>P. has G f"
proof -
  obtain u v where e: "e = (u, v)" by (cases e)
  have E: "E_ok G" using assms(2) by (simp add: wf_graph_def)
  have "sim G G' \<and> (\<forall>f\<in>P. has G f)"
  proof (cases "v_tier v = 0")
    case True
    then show ?thesis using assms(1) E by (simp add: GetIPrecedents_def e sim_refl)
  next
    case False
    with assms(1) obtain T Pv h0 L h4 where
      1: "IPrecedent M h G v = ok ((T, Pv), h0)"
      and 2: "foldR (\<lambda>v' (P, h1, G1).
                    bindR (outgoingEdgeOf G1 v') (\<lambda>(out, G2).
                    foldR (\<lambda>(v'', u') (P, h2, G3).
                             bindR (IPrecedent M h2 G3 u) (\<lambda>((Tu, Pu), h3).
                             ok (if u' \<in> Pu \<or> u = u' \<or> int (v_tier u') < int (v_tier u) - 1
                                 then P @ [(v'', u')] else P, h3, G3)))
                          out (P, h1, G2)))
                  (vorder M Pv) ([], h0, G) = ok (L, h4, G')"
      and P: "P = set L"
      by (auto simp: GetIPrecedents_def e bindR_eq_ok)
    define I where "I = (\<lambda>s :: edge list \<times> heap \<times> graph. sim G (snd (snd s)) \<and> (\<forall>f\<in>set (fst s). has G f))"
    have "I (L, h4, G')"
    proof (rule foldR_inv[OF 2, where I = I])
      show "I ([], h0, G)" using E by (simp add: I_def sim_refl)
    next
      fix x s s'
      assume Is: "I s"
        and st: "(case s of (P, h1, G1) \<Rightarrow>
                    bindR (outgoingEdgeOf G1 x) (\<lambda>(out, G2).
                    foldR (\<lambda>(v'', u') (P, h2, G3).
                             bindR (IPrecedent M h2 G3 u) (\<lambda>((Tu, Pu), h3).
                             ok (if u' \<in> Pu \<or> u = u' \<or> int (v_tier u') < int (v_tier u) - 1
                                 then P @ [(v'', u')] else P, h3, G3)))
                          out (P, h1, G2))) = ok s'"
      obtain P1 h1 G1 where s: "s = (P1, h1, G1)" by (cases s)
      from st obtain out G2 where o: "outgoingEdgeOf G1 x = ok (out, G2)"
        and in2: "foldR (\<lambda>(v'', u') (P, h2, G3).
                             bindR (IPrecedent M h2 G3 u) (\<lambda>((Tu, Pu), h3).
                             ok (if u' \<in> Pu \<or> u = u' \<or> int (v_tier u') < int (v_tier u) - 1
                                 then P @ [(v'', u')] else P, h3, G3)))
                          out (P1, h1, G2) = ok s'"
        by (auto simp: s bindR_eq_ok)
      have s1: "sim G G1" and p1: "\<forall>f\<in>set P1. has G f" using Is by (simp_all add: I_def s)
      have w1: "wf_graph G1" and h1: "\<forall>e. has G1 e = has G e"
        using sim_wf_iff[OF s1 assms(2)] by simp_all
      from outgoingEdgeOf_okE[OF o w1] have s2: "sim G1 G2" and oh: "\<forall>f\<in>set out. has G f"
        by (simp_all add: h1)
      define J where "J = (\<lambda>t :: edge list \<times> heap \<times> graph. snd (snd t) = G2 \<and> set (fst t) \<subseteq> set P1 \<union> set out)"
      have "J s'"
      proof (rule foldR_inv[OF in2, where I = J])
        show "J (P1, h1, G2)" by (simp add: J_def)
      next
        fix y t t'
        assume y: "y \<in> set out" and Jt: "J t"
          and step: "(case y of (v'', u') \<Rightarrow> \<lambda>(P, h2, G3).
                             bindR (IPrecedent M h2 G3 u) (\<lambda>((Tu, Pu), h3).
                             ok (if u' \<in> Pu \<or> u = u' \<or> int (v_tier u') < int (v_tier u) - 1
                                 then P @ [(v'', u')] else P, h3, G3))) t = ok t'"
        obtain v'' u' where yy: "y = (v'', u')" by (cases y)
        show "J t'" using step Jt y
          by (cases t) (auto simp: yy J_def bindR_eq_ok split: if_splits)
      qed
      then show "I s'" using s1 s2 p1 oh by (auto simp: I_def J_def intro: sim_trans)
    qed
    then show ?thesis by (simp add: I_def P)
  qed
  then show "sim G G'" and "\<forall>f\<in>P. has G f" by simp_all
qed

lemma GetISuccedents_okE:
  assumes "GetISuccedents M h G e = ok (S, h', G')" "wf_graph G"
  shows "sim G G'" and "\<forall>f\<in>S. has G f"
proof -
  obtain u v where e: "e = (u, v)" by (cases e)
  have E: "E_ok G" using assms(2) by (simp add: wf_graph_def)
  from assms(1) obtain Su h0 L h4 where
    1: "ISuccedent M h G u = ok (Su, h0)"
    and 2: "foldR (\<lambda>u' (S, h1, G1).
               bindR (incomingEdgeOf G1 u') (\<lambda>(inc, G2).
               foldR (\<lambda>(v', w) (S, h2, G3).
                        bindR (ISuccedent M h2 G3 v) (\<lambda>(Sv, h3).
                        ok (if v' \<in> Sv \<or> v = v' \<or> v_tier v' > v_tier v + 1
                            then S @ [(v', u')] else S, h3, G3)))
                     inc (S, h1, G2)))
             (vorder M Su) ([], h0, G) = ok (L, h4, G')"
    and S: "S = set L"
    by (auto simp: GetISuccedents_def e bindR_eq_ok)
  define I where "I = (\<lambda>s :: edge list \<times> heap \<times> graph. sim G (snd (snd s)) \<and> (\<forall>f\<in>set (fst s). has G f))"
  have "I (L, h4, G')"
  proof (rule foldR_inv[OF 2, where I = I])
    show "I ([], h0, G)" using E by (simp add: I_def sim_refl)
  next
    fix x s s'
    assume Is: "I s"
      and st: "(case s of (S, h1, G1) \<Rightarrow>
               bindR (incomingEdgeOf G1 x) (\<lambda>(inc, G2).
               foldR (\<lambda>(v', w) (S, h2, G3).
                        bindR (ISuccedent M h2 G3 v) (\<lambda>(Sv, h3).
                        ok (if v' \<in> Sv \<or> v = v' \<or> v_tier v' > v_tier v + 1
                            then S @ [(v', x)] else S, h3, G3)))
                     inc (S, h1, G2))) = ok s'"
    obtain S1 h1 G1 where s: "s = (S1, h1, G1)" by (cases s)
    from st obtain inc G2 where o: "incomingEdgeOf G1 x = ok (inc, G2)"
      and in2: "foldR (\<lambda>(v', w) (S, h2, G3).
                        bindR (ISuccedent M h2 G3 v) (\<lambda>(Sv, h3).
                        ok (if v' \<in> Sv \<or> v = v' \<or> v_tier v' > v_tier v + 1
                            then S @ [(v', x)] else S, h3, G3)))
                     inc (S1, h1, G2) = ok s'"
      by (auto simp: s bindR_eq_ok)
    have s1: "sim G G1" and p1: "\<forall>f\<in>set S1. has G f" using Is by (simp_all add: I_def s)
    have w1: "wf_graph G1" and h1: "\<forall>e. has G1 e = has G e"
      using sim_wf_iff[OF s1 assms(2)] by simp_all
    from incomingEdgeOf_okE[OF o w1] have s2: "sim G1 G2" and oh: "\<forall>f\<in>set inc. has G f \<and> snd f = x"
      by (simp_all add: h1)
    define J where "J = (\<lambda>t :: edge list \<times> heap \<times> graph. snd (snd t) = G2 \<and> set (fst t) \<subseteq> set S1 \<union> set inc)"
    have "J s'"
    proof (rule foldR_inv[OF in2, where I = J])
      show "J (S1, h1, G2)" by (simp add: J_def)
    next
      fix y t t'
      assume y: "y \<in> set inc" and Jt: "J t"
        and step: "(case y of (v', w) \<Rightarrow> \<lambda>(S, h2, G3).
                        bindR (ISuccedent M h2 G3 v) (\<lambda>(Sv, h3).
                        ok (if v' \<in> Sv \<or> v = v' \<or> v_tier v' > v_tier v + 1
                            then S @ [(v', x)] else S, h3, G3))) t = ok t'"
      obtain v' w where yy: "y = (v', w)" by (cases y)
      have "w = x" using oh y yy by auto
      then have "(v', x) \<in> set inc" using y yy by simp
      then show "J t'" using step Jt
        by (cases t) (auto simp: yy J_def bindR_eq_ok split: if_splits)
    qed
    then show "I s'" using s1 s2 p1 oh by (auto simp: I_def J_def intro: sim_trans)
  qed
  then show "sim G G'" and "\<forall>f\<in>S. has G f" by (simp_all add: I_def S)
qed

section \<open>The feasible graph is a subgraph\<close>

lemma collect_loop_okE:
  assumes "collect_loop C0 G Q Ev C = ok (C', G')" "wf_graph G"
  shows "sim G G'"
proof -
  have "wf_graph G \<longrightarrow> (\<forall>r. y = Inr r \<longrightarrow> sim G (snd r))"
    if "collect_loop C0 G Q Ev C = Some y" for y
  proof (rule collect_loop.raw_induct[where P = "\<lambda>C0 G Q Ev C y. wf_graph G \<longrightarrow> (\<forall>r. y = Inr r \<longrightarrow> sim G (snd r))", OF _ that], goal_cases)
    case (1 loop C0 G Q Ev C y)
    show ?case
    proof (intro impI allI)
      fix r assume w: "wf_graph G" and y: "y = Inr r"
      have E: "E_ok G" using w by (simp add: wf_graph_def)
      show "sim G (snd r)"
      proof (cases Q)
        case Nil
        then show ?thesis using 1(2) y E by (auto simp: sim_refl)
      next
        case (Cons e Q')
        show ?thesis
        proof (cases "e \<in> Ev")
          case True
          then have "loop C0 G Q' Ev C = Some y" using 1(2) Cons by simp
          from 1(1)[OF this] w y show ?thesis by simp
        next
          case False
          with 1(2) Cons y obtain inc G1 where i: "incomingEdgeOf G (fst e) = ok (inc, G1)"
            and l: "loop C0 G1 (extend Q' inc) (insert e Ev) (if e \<in> C0 then insert e C else C) = Some (Inr r)"
            by (auto simp: bindR_eq_ok)
          from incomingEdgeOf_okE[OF i w] have s1: "sim G G1" by simp
          have "wf_graph G1" using sim_wf[OF s1 w] .
          with 1(1)[OF l] have "sim G1 (snd r)" by simp
          with s1 show ?thesis by (rule sim_trans)
        qed
      qed
    qed
  qed
  from this[OF assms(1)] assms(2) show ?thesis by simp
qed


lemma weakCeiling_loop_okE:
  assumes "weakCeiling_loop M v0 h G Q Vv C = ok (C', h', G')" "wf_graph G"
  shows "sim G G'"
proof -
  have "wf_graph G \<longrightarrow> (\<forall>r. y = Inr r \<longrightarrow> sim G (snd (snd r)))"
    if "weakCeiling_loop M v0 h G Q Vv C = Some y" for y
  proof (rule weakCeiling_loop.raw_induct[where P = "\<lambda>M v0 h G Q Vv C y. wf_graph G \<longrightarrow> (\<forall>r. y = Inr r \<longrightarrow> sim G (snd (snd r)))", OF _ that], goal_cases)
    case (1 loop M v0 h G Q Vv C y)
    show ?case
    proof (intro impI allI)
      fix r assume w: "wf_graph G" and y: "y = Inr r"
      have E: "E_ok G" using w by (simp add: wf_graph_def)
      show "sim G (snd (snd r))"
      proof (cases Q)
        case Nil
        then show ?thesis using 1(2) y E by (auto simp: sim_refl)
      next
        case (Cons u Q')
        show ?thesis
        proof (cases "u \<in> Vv")
          case True
          then have "loop M v0 h G Q' Vv C = Some y" using 1(2) Cons by simp
          from 1(1)[OF this] w y show ?thesis by simp
        next
          case False
          with 1(2) Cons y obtain b G1 where f: "isFoldingNode G u = ok (b, G1)"
            and r1: "(if b \<or> u = v0
               then bindR (IPrecedent M h G1 u) (\<lambda>((T, P), h1).
                    loop M v0 h1 G1 (Q' @ vorder M P) (insert u Vv) C)
               else bindR (incomingEdgeOf G1 u) (\<lambda>(inc, G2).
                    loop M v0 h G2 Q' (insert u Vv) (C \<union> set inc))) = Some (Inr r)"
            by (auto simp: bindR_eq_ok)
          from isFoldingNode_okE[OF f E] have s1: "sim G G1" .
          have w1: "wf_graph G1" using sim_wf[OF s1 w] .
          show ?thesis
          proof (cases "b \<or> u = v0")
            case True
            with r1 obtain T P h1 where "loop M v0 h1 G1 (Q' @ vorder M P) (insert u Vv) C = Some (Inr r)"
              by (auto simp: bindR_eq_ok)
            from 1(1)[OF this] w1 have "sim G1 (snd (snd r))" by simp
            with s1 show ?thesis by (rule sim_trans)
          next
            case False
            with r1 obtain inc G2 where i: "incomingEdgeOf G1 u = ok (inc, G2)"
              and l: "loop M v0 h G2 Q' (insert u Vv) (C \<union> set inc) = Some (Inr r)"
              by (auto simp: bindR_eq_ok)
            from incomingEdgeOf_okE[OF i w1] have s2: "sim G1 G2" by simp
            have "wf_graph G2" using sim_wf[OF s2 w1] .
            with 1(1)[OF l] have "sim G2 (snd (snd r))" by simp
            with s1 s2 show ?thesis by (blast intro: sim_trans)
          qed
        qed
      qed
    qed
  qed
  from this[OF assms(1)] assms(2) show ?thesis by simp
qed

lemma GetWeakCeilingAdjacentEdges_okE:
  assumes "GetWeakCeilingAdjacentEdges M h G e0 Ef = ok (C', h', G')" "wf_graph G"
  shows "sim G G'"
  using assms weakCeiling_loop_okE
  by (auto simp: GetWeakCeilingAdjacentEdges_def split: prod.splits)

lemma collectEdgesWithPath_okE:
  assumes "collectEdgesWithPath M G C0 Ef = ok (C', G')" "wf_graph G"
  shows "sim G G'"
  using assms collect_loop_okE by (auto simp: collectEdgesWithPath_def)

lemma cover_loop_okE:
  assumes "cover_loop M Ef h G Q C = ok (C', h', G')" "wf_graph G"
  shows "sim G G'"
proof -
  have "wf_graph G \<longrightarrow> (\<forall>r. y = Inr r \<longrightarrow> sim G (snd (snd r)))"
    if "cover_loop M Ef h G Q C = Some y" for y
  proof (rule cover_loop.raw_induct[where P = "\<lambda>M Ef h G Q C y. wf_graph G \<longrightarrow> (\<forall>r. y = Inr r \<longrightarrow> sim G (snd (snd r)))", OF _ that], goal_cases)
    case (1 loop M Ef h G Q C y)
    show ?case
    proof (intro impI allI)
      fix r assume w: "wf_graph G" and y: "y = Inr r"
      have E: "E_ok G" using w by (simp add: wf_graph_def)
      show "sim G (snd (snd r))"
      proof (cases Q)
        case Nil
        then show ?thesis using 1(2) y E by (auto simp: sim_refl)
      next
        case (Cons f Q')
        with 1(2) y obtain Ec h1 G1 where g: "GetWeakCeilingAdjacentEdges M h G f Ef = ok (Ec, h1, G1)"
          and l: "loop M Ef h1 G1 (fst (add_new (eorder M Ec) (Q', C))) (snd (add_new (eorder M Ec) (Q', C))) = Some (Inr r)"
          by (auto simp: bindR_eq_ok split_beta)
        from GetWeakCeilingAdjacentEdges_okE[OF g w] have s1: "sim G G1" .
        have "wf_graph G1" using sim_wf[OF s1 w] .
        with 1(1)[OF l] have "sim G1 (snd (snd r))" by simp
        with s1 show ?thesis by (rule sim_trans)
      qed
    qed
  qed
  from this[OF assms(1)] assms(2) show ?thesis by simp
qed

lemma ComputeCoverEdges_okE:
  assumes "ComputeCoverEdges M h G Ef = ok (C, h', G')" "wf_graph G"
  shows "sim G G'"
proof -
  from assms(1) obtain C1 G1 where 1: "cover_loop M Ef h G (eorder M Ef) Ef = ok (C1, h', G1)"
    and 2: "collectEdgesWithPath M G1 C1 Ef = ok (C, G')"
    by (auto simp: ComputeCoverEdges_def bindR_eq_ok)
  from cover_loop_okE[OF 1 assms(2)] have s1: "sim G G1" .
  from collectEdgesWithPath_okE[OF 2 sim_wf[OF s1 assms(2)]] have "sim G1 G'" .
  with s1 show ?thesis by (rule sim_trans)
qed

subsection \<open>The reachable graph\<close>

lemma set_extend: "set (extend T xs) = set T \<union> set xs"
  by (auto simp: extend_def)

lemma reach_step_okE:
  assumes "reach_step M C V0 Ef h G T' Er f = ok (T2, Er4, h3, G4)" "wf_graph G"
  shows "sim G G4" and "\<forall>e\<in>set T2. e \<in> set T' \<or> has G e"
proof -
  have E: "E_ok G" using assms(2) by (simp add: wf_graph_def)
  from assms(1) obtain Er1 h2 G1 Er2 G2 T1 Er3 G3 where
    1: "(if f \<notin> C
            then bindR (CountISuccedents M h G f) (\<lambda>(n, h2, G1).
                 ok (if n = 0 then insert f Er else Er, h2, G1))
            else ok (Er, h, G)) = ok (Er1, h2, G1)"
    and 2: "(if v_tier (snd f) > 0
            then bindR (CountIPrecedents M h2 G1 f) (\<lambda>(n, h3, G2).
                 ok (if n = 0 then insert f Er1 else Er1, h3, G2))
            else ok (Er1, h2, G1)) = ok (Er2, h3, G2)"
    and 3: "(if f \<notin> Ef
            then bindR (getNextEdges G2 f) (\<lambda>(En, G3).
                 ok (if En = [] then (T', insert f Er2, G3) else (extend T' En, Er2, G3)))
            else ok (T', Er2, G2)) = ok (T1, Er3, G3)"
    and 4: "(if fst f \<notin> V0
            then bindR (getPrevEdges G3 f) (\<lambda>(Eb, G4).
                 ok (if Eb = [] then (T1, insert f Er3, G4) else (extend T1 Eb, Er3, G4)))
            else ok (T1, Er3, G3)) = ok (T2, Er4, G4)"
    by (auto simp: reach_step_def bindR_eq_ok)
  have s1: "sim G G1"
    using 1 E CountISuccedents_okE[of M h G f]
    by (auto simp: bindR_eq_ok sim_refl split: if_splits)
  have w1: "wf_graph G1" using sim_wf[OF s1 assms(2)] .
  have E1: "E_ok G1" using w1 by (simp add: wf_graph_def)
  have s2: "sim G1 G2"
    using 2 E1 CountIPrecedents_okE[of M h2 G1 f]
    by (auto simp: bindR_eq_ok sim_refl split: if_splits)
  have w2: "wf_graph G2" using sim_wf[OF s2 w1] .
  have E2: "E_ok G2" using w2 by (simp add: wf_graph_def)
  have h2: "\<forall>e. has G2 e = has G e" using sim_has[OF s1] sim_has[OF s2] by simp
  have s3: "sim G2 G3" and t1: "\<forall>e\<in>set T1. e \<in> set T' \<or> has G e"
    using 3 E2 getNextEdges_okE[OF _ w2, of f] h2
    by (auto simp: bindR_eq_ok sim_refl set_extend split: if_splits)
  have w3: "wf_graph G3" using sim_wf[OF s3 w2] .
  have E3: "E_ok G3" using w3 by (simp add: wf_graph_def)
  have h3: "\<forall>e. has G3 e = has G e" using h2 sim_has[OF s3] by simp
  have s4: "sim G3 G4" and t2: "\<forall>e\<in>set T2. e \<in> set T1 \<or> has G e"
    using 4 E3 getPrevEdges_okE[OF _ w3, of f] h3
    by (auto simp: bindR_eq_ok sim_refl set_extend split: if_splits)
  show "sim G G4" using s1 s2 s3 s4 by (blast intro: sim_trans)
  show "\<forall>e\<in>set T2. e \<in> set T' \<or> has G e" using t1 t2 by blast
qed

text \<open>
  A Python \<open>set\<close> is run through in some order, and the elements met are elements of
  the set.
\<close>

definition sound_order :: "env \<Rightarrow> bool" where
  "sound_order M \<longleftrightarrow> (\<forall>S. set (vorder M S) \<subseteq> S) \<and> (\<forall>S. set (eorder M S) \<subseteq> S)"

lemma reach_loop_okE:
  assumes "reach_loop M C V0 Ef h G H T Er = ok (H', Er', h', G')"
    and "wf_graph G" "wf_graph H" "\<forall>e. has H e \<longrightarrow> has G e" "\<forall>e\<in>set T. has G e"
  shows "sim G G'" and "wf_graph H'" and "\<forall>e. has H' e \<longrightarrow> has G e"
proof -
  define P where "P = (\<lambda>(M :: env) (C :: edge set) (V0 :: vertex set) (Ef :: edge set) (h :: heap)
      G H (T :: edge list) (Er :: edge set) (y :: error + graph \<times> edge set \<times> heap \<times> graph).
      wf_graph G \<and> wf_graph H \<and> (\<forall>e. has H e \<longrightarrow> has G e) \<and> (\<forall>e\<in>set T. has G e)
      \<longrightarrow> (\<forall>r. y = Inr r \<longrightarrow> sim G (snd (snd (snd r))) \<and> wf_graph (fst r)
                \<and> (\<forall>e. has (fst r) e \<longrightarrow> has G e)))"
  have "P M C V0 Ef h G H T Er y" if "reach_loop M C V0 Ef h G H T Er = Some y" for y
  proof (rule reach_loop.raw_induct[where P = P, OF _ that], goal_cases)
    case (1 loop M C V0 Ef h G H T Er y)
    show ?case
      unfolding P_def
    proof (intro impI allI)
      fix r
      assume pre: "wf_graph G \<and> wf_graph H \<and> (\<forall>e. has H e \<longrightarrow> has G e) \<and> (\<forall>e\<in>set T. has G e)"
        and y: "y = Inr r"
      then have wG: "wf_graph G" and wH: "wf_graph H" and sub: "\<forall>e. has H e \<longrightarrow> has G e"
        and tG: "\<forall>e\<in>set T. has G e" by simp_all
      have EG: "E_ok G" and EH: "E_ok H" using wG wH by (simp_all add: wf_graph_def)
      show "sim G (snd (snd (snd r))) \<and> wf_graph (fst r) \<and> (\<forall>e. has (fst r) e \<longrightarrow> has G e)"
      proof (cases T)
        case Nil
        then show ?thesis using 1(2) y EG wH sub by (auto simp: sim_refl)
      next
        case (Cons f T')
        with 1(2) y obtain b H1 where hf: "hasEdge H f = ok (b, H1)"
          and r1: "(if b then loop M C V0 Ef h G H1 T' Er
               else bindR (addEdge M h H1 f) (\<lambda>(h1, H2).
                    bindR (reach_step M C V0 Ef h1 G T' Er f) (\<lambda>(T2, Er4, h3, G4).
                    loop M C V0 Ef h3 G4 H2 T2 Er4))) = Some (Inr r)"
          by (auto simp: bindR_eq_ok)
        from hasEdge_okE[OF hf EH] have b: "b = has H f" and s1: "sim H H1" by simp_all
        have wH1: "wf_graph H1" and hH1: "\<forall>e. has H1 e = has H e"
          using sim_wf_iff[OF s1 wH] by simp_all
        show ?thesis
        proof (cases b)
          case True
          with r1 have l: "loop M C V0 Ef h G H1 T' Er = Some (Inr r)" by simp
          have "P M C V0 Ef h G H1 T' Er (Inr r)" by (rule 1(1)[OF l])
          then show ?thesis unfolding P_def using wG wH1 hH1 sub tG Cons by auto
        next
          case False
          obtain u v where f: "f = (u, v)" by (cases f)
          from False r1 obtain h1 H2 T2 Er4 h3 G4 where
            a: "addEdge M h H1 (u, v) = ok (h1, H2)"
            and st: "reach_step M C V0 Ef h1 G T' Er f = ok (T2, Er4, h3, G4)"
            and l: "loop M C V0 Ef h3 G4 H2 T2 Er4 = Some (Inr r)"
            by (auto simp: bindR_eq_ok f)
          from addEdge_wf[OF a wH1] have wH2: "wf_graph H2"
            and hH2: "\<forall>e. has H2 e \<longleftrightarrow> has H1 e \<or> e = (u, v)" by simp_all
          from reach_step_okE[OF st wG] have s4: "sim G G4"
            and t2: "\<forall>e\<in>set T2. e \<in> set T' \<or> has G e" by simp_all
          have wG4: "wf_graph G4" and hG4: "\<forall>e. has G4 e = has G e"
            using sim_wf_iff[OF s4 wG] by simp_all
          have fG: "has G f" using tG Cons by simp
          have p2: "wf_graph G4 \<and> wf_graph H2 \<and> (\<forall>e. has H2 e \<longrightarrow> has G4 e) \<and> (\<forall>e\<in>set T2. has G4 e)"
            using wG4 wH2 hH2 hH1 sub fG f t2 tG Cons hG4 by auto
          have "P M C V0 Ef h3 G4 H2 T2 Er4 (Inr r)" by (rule 1(1)[OF l])
          with p2 have "sim G4 (snd (snd (snd r))) \<and> wf_graph (fst r) \<and> (\<forall>e. has (fst r) e \<longrightarrow> has G4 e)"
            unfolding P_def by blast
          then show ?thesis using s4 hG4 by (auto intro: sim_trans)
        qed
      qed
    qed
  qed
  from this[OF assms(1)] assms(2-5)
  have "sim G (snd (snd (snd (H', Er', h', G')))) \<and> wf_graph (fst (H', Er', h', G'))
                \<and> (\<forall>e. has (fst (H', Er', h', G')) e \<longrightarrow> has G e)"
    unfolding P_def by blast
  then show "sim G G'" and "wf_graph H'" and "\<forall>e. has H' e \<longrightarrow> has G e"
    by simp_all
qed

lemma GetStepPendentEdgesWithReachableGraph_okE:
  assumes "GetStepPendentEdgesWithReachableGraph M h G C V0 Ef = ok (H, Er, h', G')"
    and "wf_graph G" "sound_order M"
  shows "sim G G'" and "wf_graph H" and "\<forall>e. has H e \<longrightarrow> has G e"
proof -
  have EG: "E_ok G" using assms(2) by (simp add: wf_graph_def)
  from assms(1) obtain E0 G3 where
    1: "foldR (\<lambda>v0 (E0, G1).
              bindR (outgoingEdgeOf G1 v0) (\<lambda>(out, G2). ok (E0 \<union> set out, G2)))
            (vorder M V0) ({}, G) = ok (E0, G3)"
    and 2: "reach_loop M C V0 Ef (fst (DynamicComputationGraph h)) G3 (snd (DynamicComputationGraph h))
              (stack_of (eorder M E0)) {} = ok (H, Er, h', G')"
    by (auto simp: GetStepPendentEdgesWithReachableGraph_def bindR_eq_ok split_beta)
  define I where "I = (\<lambda>s :: edge set \<times> graph. sim G (snd s) \<and> (\<forall>e\<in>fst s. has G e))"
  have "I (E0, G3)"
  proof (rule foldR_inv[OF 1, where I = I])
    show "I ({}, G)" using EG by (simp add: I_def sim_refl)
  next
    fix x s s'
    assume Is: "I s"
      and st: "(case s of (E0, G1) \<Rightarrow>
              bindR (outgoingEdgeOf G1 x) (\<lambda>(out, G2). ok (E0 \<union> set out, G2))) = ok s'"
    obtain E1 G1 where s: "s = (E1, G1)" by (cases s)
    from st obtain out G2 where o: "outgoingEdgeOf G1 x = ok (out, G2)" and s': "s' = (E1 \<union> set out, G2)"
      by (auto simp: s bindR_eq_ok)
    have s1: "sim G G1" and e1: "\<forall>e\<in>E1. has G e" using Is by (simp_all add: I_def s)
    have w1: "wf_graph G1" and h1: "\<forall>e. has G1 e = has G e"
      using sim_wf_iff[OF s1 assms(2)] by simp_all
    from outgoingEdgeOf_okE[OF o w1] have "sim G1 G2" "\<forall>f\<in>set out. has G f" by (simp_all add: h1)
    then show "I s'" using s1 e1 by (auto simp: I_def s' intro: sim_trans)
  qed
  then have s3: "sim G G3" and e0: "\<forall>e\<in>E0. has G e" by (simp_all add: I_def)
  have w3: "wf_graph G3" and h3: "\<forall>e. has G3 e = has G e"
    using sim_wf_iff[OF s3 assms(2)] by simp_all
  have "set (eorder M E0) \<subseteq> E0" using assms(3) by (simp add: sound_order_def)
  then have t: "\<forall>e\<in>set (stack_of (eorder M E0)). has G3 e"
    using e0 h3 by (auto simp: stack_of_def)
  have n: "\<forall>e. has (snd (DynamicComputationGraph h)) e \<longrightarrow> has G3 e" by (simp add: has_new)
  note r = reach_loop_okE[OF 2 w3 wf_graph_new n t]
  show "sim G G'" using s3 r(1) by (rule sim_trans)
  show "wf_graph H" by (rule r(2))
  show "\<forall>e. has H e \<longrightarrow> has G e" using r(3) h3 by simp
qed

subsection \<open>The pruning cascade\<close>

lemma count_push_precedents_sim:
  assumes "foldR (\<lambda>f (T, h, H).
              bindR (CountIPrecedents M h H f) (\<lambda>(n, h', H').
              ok (if n = 1 then f # T else T, h', H')))
            es (T1, h1, H3) = ok (T2, h2, H4)" "E_ok H3"
  shows "sim H3 H4"
proof -
  have "sim H3 (snd (snd (T2, h2, H4)))"
  proof (rule foldR_inv[OF assms(1), where I = "\<lambda>s. sim H3 (snd (snd s))"])
    show "sim H3 (snd (snd (T1, h1, H3)))" using assms(2) by (simp add: sim_refl)
  next
    fix x s s'
    assume I: "sim H3 (snd (snd s))"
      and st: "(case s of (T, h, H) \<Rightarrow>
              bindR (CountIPrecedents M h H x) (\<lambda>(n, h', H').
              ok (if n = 1 then x # T else T, h', H'))) = ok s'"
    obtain T h H where s: "s = (T, h, H)" by (cases s)
    from st obtain n h' H' where c: "CountIPrecedents M h H x = ok (n, h', H')"
      and s': "s' = (if n = 1 then x # T else T, h', H')"
      by (auto simp: s bindR_eq_ok)
    have "E_ok H" using I s sim_E_ok by auto
    from CountIPrecedents_okE[OF c this] I s show "sim H3 (snd (snd s'))"
      by (auto simp: s' intro: sim_trans)
  qed
  then show ?thesis by simp
qed

lemma count_push_succedents_sim:
  assumes "foldR (\<lambda>f (T, h, H).
              if f \<in> C then ok (T, h, H)
              else bindR (CountISuccedents M h H f) (\<lambda>(n, h', H').
                   ok (if n = 1 then f # T else T, h', H')))
            es (T2, h3, H5) = ok (T3, h4, H6)" "E_ok H5"
  shows "sim H5 H6"
proof -
  have "sim H5 (snd (snd (T3, h4, H6)))"
  proof (rule foldR_inv[OF assms(1), where I = "\<lambda>s. sim H5 (snd (snd s))"])
    show "sim H5 (snd (snd (T2, h3, H5)))" using assms(2) by (simp add: sim_refl)
  next
    fix x s s'
    assume I: "sim H5 (snd (snd s))"
      and st: "(case s of (T, h, H) \<Rightarrow>
              if x \<in> C then ok (T, h, H)
              else bindR (CountISuccedents M h H x) (\<lambda>(n, h', H').
                   ok (if n = 1 then x # T else T, h', H'))) = ok s'"
    obtain T h H where s: "s = (T, h, H)" by (cases s)
    show "sim H5 (snd (snd s'))"
    proof (cases "x \<in> C")
      case True
      then show ?thesis using st I s by auto
    next
      case False
      with st obtain n h' H' where c: "CountISuccedents M h H x = ok (n, h', H')"
        and s': "s' = (if n = 1 then x # T else T, h', H')"
        by (auto simp: s bindR_eq_ok)
      have "E_ok H" using I s sim_E_ok by auto
      from CountISuccedents_okE[OF c this] I s show ?thesis
        by (auto simp: s' intro: sim_trans)
    qed
  qed
  then show ?thesis by simp
qed

lemma cascade_step_okE:
  assumes "cascade_step M C Ef h H T e = ok (h', H', T')" "wf_graph H"
  shows "wf_graph H'" and "\<forall>f. has H' f \<longleftrightarrow> has H f \<and> f \<noteq> e"
proof -
  have E: "E_ok H" using assms(2) by (simp add: wf_graph_def)
  from assms(1) obtain m H1 T1 H2 Es h1 H3 T2 h2 H4 Ep h3 H5 T3 H6 s H7 T4 H8 where
    1: "isMergingEdge H e = ok (m, H1)"
    and 2: "(if \<not> m then bindR (getNextEdges H1 e) (\<lambda>(En, H2). ok (extend T En, H2))
            else ok (T, H1)) = ok (T1, H2)"
    and 3: "GetISuccedents M h H2 e = ok (Es, h1, H3)"
    and 4: "foldR (\<lambda>f (T, h, H).
              bindR (CountIPrecedents M h H f) (\<lambda>(n, h', H').
              ok (if n = 1 then f # T else T, h', H')))
            (eorder M Es) (T1, h1, H3) = ok (T2, h2, H4)"
    and 5: "GetIPrecedents M h2 H4 e = ok (Ep, h3, H5)"
    and 6: "foldR (\<lambda>f (T, h, H).
              if f \<in> C then ok (T, h, H)
              else bindR (CountISuccedents M h H f) (\<lambda>(n, h', H').
                   ok (if n = 1 then f # T else T, h', H')))
            (eorder M Ep) (T2, h3, H5) = ok (T3, h', H6)"
    and 7: "isSplittingEdge H6 e = ok (s, H7)"
    and 8: "(if \<not> s then bindR (getPrevEdges H7 e) (\<lambda>(Eb, H8).
                          ok (extend T3 (filter (\<lambda>f. f \<notin> Ef) Eb), H8))
            else ok (T3, H7)) = ok (T4, H8)"
    and 9: "removeEdge H8 e = ok H'"
    by (auto simp: cascade_step_def bindR_eq_ok)
  from isMergingEdge_okE[OF 1 E] have s1: "sim H H1" .
  have w1: "wf_graph H1" using sim_wf[OF s1 assms(2)] .
  have s2: "sim H1 H2"
    using 2 w1 getNextEdges_okE(1)[OF _ w1, of e]
    by (auto simp: bindR_eq_ok sim_refl wf_graph_def split: if_splits)
  have w2: "wf_graph H2" using sim_wf[OF s2 w1] .
  from GetISuccedents_okE(1)[OF 3 w2] have s3: "sim H2 H3" .
  have w3: "wf_graph H3" using sim_wf[OF s3 w2] .
  from count_push_precedents_sim[OF 4] w3 have s4: "sim H3 H4" by (simp add: wf_graph_def)
  have w4: "wf_graph H4" using sim_wf[OF s4 w3] .
  from GetIPrecedents_okE(1)[OF 5 w4] have s5: "sim H4 H5" .
  have w5: "wf_graph H5" using sim_wf[OF s5 w4] .
  from count_push_succedents_sim[OF 6] w5 have s6: "sim H5 H6" by (simp add: wf_graph_def)
  have w6: "wf_graph H6" using sim_wf[OF s6 w5] .
  from isSplittingEdge_okE[OF 7] w6 have s7: "sim H6 H7" by (simp add: wf_graph_def)
  have w7: "wf_graph H7" using sim_wf[OF s7 w6] .
  have s8: "sim H7 H8"
    using 8 w7 getPrevEdges_okE(1)[OF _ w7, of e]
    by (auto simp: bindR_eq_ok sim_refl wf_graph_def split: if_splits)
  have w8: "wf_graph H8" using sim_wf[OF s8 w7] .
  have s: "sim H H8" using s1 s2 s3 s4 s5 s6 s7 s8 by (blast intro: sim_trans)
  obtain u v where e: "e = (u, v)" by (cases e)
  from removeEdge_wf[OF 9[unfolded e] w8]
  have "wf_graph H'" and "\<forall>f. has H' f \<longleftrightarrow> has H8 f \<and> f \<noteq> e" by (simp_all add: e)
  then show "wf_graph H'" and "\<forall>f. has H' f \<longleftrightarrow> has H f \<and> f \<noteq> e"
    using sim_has[OF s] by simp_all
qed

lemma cascade_loop_okE:
  assumes "cascade_loop M C Ef h H T Ef' = ok (H', h')" "wf_graph H"
  shows "wf_graph H'" and "\<forall>f. has H' f \<longrightarrow> has H f"
    and "Ef' \<noteq> {} \<Longrightarrow> \<forall>f\<in>Ef'. has H f \<Longrightarrow>
           ((\<forall>f. \<not> has H' f) \<and> size_g H' = 0) \<or> (\<exists>f\<in>Ef'. has H' f)"
proof -
  define P where "P = (\<lambda>(M :: env) (C :: edge set) (Ef :: edge set) (h :: heap) H (T :: edge list)
      (Ef' :: edge set) (y :: error + graph \<times> heap).
      wf_graph H \<longrightarrow> (\<forall>r. y = Inr r \<longrightarrow> wf_graph (fst r) \<and> (\<forall>f. has (fst r) f \<longrightarrow> has H f)
         \<and> (Ef' \<noteq> {} \<and> (\<forall>f\<in>Ef'. has H f) \<longrightarrow>
              ((\<forall>f. \<not> has (fst r) f) \<and> size_g (fst r) = 0) \<or> (\<exists>f\<in>Ef'. has (fst r) f))))"
  have "P M C Ef h H T Ef' y" if "cascade_loop M C Ef h H T Ef' = Some y" for y
  proof (rule cascade_loop.raw_induct[where P = P, OF _ that], goal_cases)
    case (1 loop M C Ef h H T Ef' y)
    show ?case
      unfolding P_def
    proof (intro impI allI)
      fix r
      assume wH: "wf_graph H" and y: "y = Inr r"
      have EH: "E_ok H" using wH by (simp add: wf_graph_def)
      show "wf_graph (fst r) \<and> (\<forall>f. has (fst r) f \<longrightarrow> has H f)
         \<and> (Ef' \<noteq> {} \<and> (\<forall>f\<in>Ef'. has H f) \<longrightarrow>
              ((\<forall>f. \<not> has (fst r) f) \<and> size_g (fst r) = 0) \<or> (\<exists>f\<in>Ef'. has (fst r) f))"
      proof (cases T)
        case Nil
        then have "r = (H, h)" using 1(2) y by simp
        then show ?thesis using wH by auto
      next
        case (Cons e T')
        with 1(2) y obtain b H0 where hf: "hasEdge H e = ok (b, H0)"
          and r1: "(if \<not> b then loop M C Ef h H0 T' Ef'
               else bindR (cascade_step M C Ef h H0 T' e) (\<lambda>(h1, H1, T1).
                    if e \<in> Ef' then
                      (if Ef' - {e} = {} then
                         (let (h2, H2) = DynamicComputationGraph h1 in ok (H2, h2))
                       else loop M C Ef h1 H1 T1 (Ef' - {e}))
                    else loop M C Ef h1 H1 T1 Ef')) = Some (Inr r)"
          by (auto simp: bindR_eq_ok)
        from hasEdge_okE[OF hf EH] have b: "b = has H e" and s0: "sim H H0" by simp_all
        have w0: "wf_graph H0" and h0: "\<forall>f. has H0 f = has H f"
          using sim_wf_iff[OF s0 wH] by simp_all
        show ?thesis
        proof (cases b)
          case False
          with r1 have l: "loop M C Ef h H0 T' Ef' = Some (Inr r)" by simp
          have "P M C Ef h H0 T' Ef' (Inr r)" by (rule 1(1)[OF l])
          then show ?thesis unfolding P_def using w0 h0 by auto
        next
          case True
          with r1 obtain h1 H1 T1 where cs: "cascade_step M C Ef h H0 T' e = ok (h1, H1, T1)"
            and r2: "(if e \<in> Ef' then
                      (if Ef' - {e} = {} then
                         (let (h2, H2) = DynamicComputationGraph h1 in ok (H2, h2))
                       else loop M C Ef h1 H1 T1 (Ef' - {e}))
                    else loop M C Ef h1 H1 T1 Ef') = Some (Inr r)"
            by (auto simp: bindR_eq_ok)
          from cascade_step_okE[OF cs w0] have w1: "wf_graph H1"
            and h1: "\<forall>f. has H1 f \<longleftrightarrow> has H f \<and> f \<noteq> e" by (simp_all add: h0)
          show ?thesis
          proof (cases "e \<in> Ef'")
            case False
            with r2 have l: "loop M C Ef h1 H1 T1 Ef' = Some (Inr r)" by simp
            have "P M C Ef h1 H1 T1 Ef' (Inr r)" by (rule 1(1)[OF l])
            then have c: "wf_graph (fst r) \<and> (\<forall>f. has (fst r) f \<longrightarrow> has H1 f)
               \<and> (Ef' \<noteq> {} \<and> (\<forall>f\<in>Ef'. has H1 f) \<longrightarrow>
                  ((\<forall>f. \<not> has (fst r) f) \<and> size_g (fst r) = 0) \<or> (\<exists>f\<in>Ef'. has (fst r) f))"
              unfolding P_def using w1 by blast
            have "\<forall>f\<in>Ef'. has H f \<longrightarrow> has H1 f" using h1 False by auto
            with c h1 show ?thesis by blast
          next
            case True
            note eEf = this
            show ?thesis
            proof (cases "Ef' - {e} = {}")
              case True
              with r2 eEf have "r = (snd (DynamicComputationGraph h1), fst (DynamicComputationGraph h1))"
                by (simp add: split_beta)
              then show ?thesis
                by (simp add: wf_graph_new has_new size_g_new)
            next
              case False
              with r2 eEf have l: "loop M C Ef h1 H1 T1 (Ef' - {e}) = Some (Inr r)" by simp
              have "P M C Ef h1 H1 T1 (Ef' - {e}) (Inr r)" by (rule 1(1)[OF l])
              then have c: "wf_graph (fst r) \<and> (\<forall>f. has (fst r) f \<longrightarrow> has H1 f)
                 \<and> (Ef' - {e} \<noteq> {} \<and> (\<forall>f\<in>Ef' - {e}. has H1 f) \<longrightarrow>
                    ((\<forall>f. \<not> has (fst r) f) \<and> size_g (fst r) = 0) \<or> (\<exists>f\<in>Ef' - {e}. has (fst r) f))"
                unfolding P_def using w1 by blast
              have "\<forall>f\<in>Ef' - {e}. has H f \<longrightarrow> has H1 f" using h1 by auto
              with c h1 False show ?thesis by blast
            qed
          qed
        qed
      qed
    qed
  qed
  from this[OF assms(1)] assms(2)
  have c: "wf_graph (fst (H', h')) \<and> (\<forall>f. has (fst (H', h')) f \<longrightarrow> has H f)
         \<and> (Ef' \<noteq> {} \<and> (\<forall>f\<in>Ef'. has H f) \<longrightarrow>
              ((\<forall>f. \<not> has (fst (H', h')) f) \<and> size_g (fst (H', h')) = 0) \<or> (\<exists>f\<in>Ef'. has (fst (H', h')) f))"
    unfolding P_def by blast
  show "wf_graph H'" and "\<forall>f. has H' f \<longrightarrow> has H f" using c by simp_all
  show "Ef' \<noteq> {} \<Longrightarrow> \<forall>f\<in>Ef'. has H f \<Longrightarrow>
           ((\<forall>f. \<not> has H' f) \<and> size_g H' = 0) \<or> (\<exists>f\<in>Ef'. has H' f)"
    using c by simp
qed

lemma ComputeFeasibleGraph_okE:
  assumes "ComputeFeasibleGraph M h G V0 Ef Er' = ok (H', h', G')" "wf_graph G" "sound_order M"
  shows "sim G G'" and "wf_graph H'" and "\<forall>e. has H' e \<longrightarrow> has G e"
proof -
  from assms(1) obtain C h1 G1 H Er h2 where
    1: "ComputeCoverEdges M h G Ef = ok (C, h1, G1)"
    and 2: "GetStepPendentEdgesWithReachableGraph M h1 G1 C V0 Ef = ok (H, Er, h2, G')"
    and 3: "cascade_loop M C Ef h2 H (stack_of (eorder M (Er \<union> Er'))) Ef = ok (H', h')"
    by (auto simp: ComputeFeasibleGraph_def bindR_eq_ok)
  from ComputeCoverEdges_okE[OF 1 assms(2)] have s1: "sim G G1" .
  have w1: "wf_graph G1" and h1: "\<forall>e. has G1 e = has G e"
    using sim_wf_iff[OF s1 assms(2)] by simp_all
  note g = GetStepPendentEdgesWithReachableGraph_okE[OF 2 w1 assms(3)]
  show "sim G G'" using s1 g(1) by (rule sim_trans)
  note c = cascade_loop_okE(1,2)[OF 3 g(2)]
  show "wf_graph H'" by (rule c(1))
  show "\<forall>e. has H' e \<longrightarrow> has G e" using c(2) g(3) h1 by blast
qed

end
